theory Spec2Isabelle
  imports Main
begin

section \<open>Python values used by backend/app.py\<close>

text \<open>
  A Python \<open>str\<close> is a sequence of Unicode code points; it is modelled as the list of
  those code points. \<open>py\<close> reads an ASCII literal of the source as such a list.
\<close>

type_synonym pystr = "nat list"

definition py :: "string \<Rightarrow> pystr" where
  "py s = map of_char s"

text \<open>
  The exceptions that the modelled code can raise: the \<open>Exception(message)\<close> raised by
  \<open>run_ykman_command\<close>, the \<open>IndexError\<close> of an index out of range, the
  \<open>ValueError\<close> of \<open>int(s)\<close>, and an error raised by the database session.
\<close>

datatype exn = Exception pystr | IndexError | ValueError | DatabaseError

text \<open>
  \<open>str.isspace\<close> for one code point: the white space of CPython's Unicode database
  (U+0009..U+000D, U+001C..U+0020, U+0085, U+00A0, U+1680, U+2000..U+200A, U+2028,
  U+2029, U+202F, U+205F, U+3000).
\<close>

definition isspace :: "nat \<Rightarrow> bool" where
  "isspace c =
     ((9 \<le> c \<and> c \<le> 13) \<or> (28 \<le> c \<and> c \<le> 32) \<or> c = 133 \<or> c = 160 \<or> c = 5760 \<or>
      (8192 \<le> c \<and> c \<le> 8202) \<or> c = 8232 \<or> c = 8233 \<or> c = 8239 \<or> c = 8287 \<or>
      c = 12288)"

text \<open>\<open>s.strip()\<close>: white space removed at both ends.\<close>

definition strip :: "pystr \<Rightarrow> pystr" where
  "strip s = rev (dropWhile isspace (rev (dropWhile isspace s)))"

text \<open>\<open>s.split(sep)\<close> for a separator of one code point; the result is never empty.\<close>

fun split_acc :: "nat \<Rightarrow> pystr \<Rightarrow> pystr \<Rightarrow> pystr list" where
  "split_acc sep cur [] = [rev cur]"
| "split_acc sep cur (c # cs) =
     (if c = sep then rev cur # split_acc sep [] cs else split_acc sep (c # cur) cs)"

definition split :: "pystr \<Rightarrow> nat \<Rightarrow> pystr list" where
  "split s sep = split_acc sep [] s"

text \<open>\<open>s.split(sep, 1)\<close>: at most one cut, at the first separator.\<close>

definition split1 :: "pystr \<Rightarrow> nat \<Rightarrow> pystr list" where
  "split1 s sep =
     (case dropWhile (\<lambda>c. c \<noteq> sep) s of
        [] \<Rightarrow> [s]
      | _ # rest \<Rightarrow> [takeWhile (\<lambda>c. c \<noteq> sep) s, rest])"

text \<open>\<open>xs[i]\<close> for a non-negative index: \<open>IndexError\<close> out of range.\<close>

definition index :: "'a list \<Rightarrow> nat \<Rightarrow> exn + 'a" where
  "index xs i = (if i < length xs then Inr (xs ! i) else Inl IndexError)"

text \<open>\<open>s.startswith(p)\<close> and the substring test \<open>sub in s\<close>.\<close>

definition startswith :: "pystr \<Rightarrow> pystr \<Rightarrow> bool" where
  "startswith s p = (take (length p) s = p)"

fun py_in :: "pystr \<Rightarrow> pystr \<Rightarrow> bool" where
  "py_in sub [] = (sub = [])"
| "py_in sub (c # cs) = (startswith (c # cs) sub \<or> py_in sub cs)"

section \<open>parse_yubikey_info\<close>

text \<open>The dictionary built by \<open>parse_yubikey_info\<close>: its three keys, always present.\<close>

record parsed_info =
  version :: pystr
  form_factor :: pystr
  device_type :: pystr

text \<open>
  One iteration of the \<open>for line in lines\<close> loop: the line is stripped, then the
  \<open>if\<close>/\<open>elif\<close> chain assigns the matching key. \<open>line.split(':', 1)[1]\<close> raises
  \<open>IndexError\<close> when the cut yields one part only.
\<close>

definition parse_line :: "pystr \<Rightarrow> parsed_info \<Rightarrow> exn + parsed_info" where
  "parse_line line0 info =
     (let line = strip line0 in
      if startswith line (py ''Firmware version:'') then
        (case index (split1 line 58) 1 of
           Inl e \<Rightarrow> Inl e
         | Inr v \<Rightarrow> Inr (info\<lparr>version := strip v\<rparr>))
      else if startswith line (py ''Form factor:'') then
        (case index (split1 line 58) 1 of
           Inl e \<Rightarrow> Inl e
         | Inr v \<Rightarrow> Inr (info\<lparr>form_factor := strip v\<rparr>))
      else if startswith line (py ''Device type:'') then
        (case index (split1 line 58) 1 of
           Inl e \<Rightarrow> Inl e
         | Inr v \<Rightarrow> Inr (info\<lparr>device_type := strip v\<rparr>))
      else Inr info)"

fun parse_lines :: "pystr list \<Rightarrow> parsed_info \<Rightarrow> exn + parsed_info" where
  "parse_lines [] info = Inr info"
| "parse_lines (line # lines) info =
     (case parse_line line info of
        Inl e \<Rightarrow> Inl e
      | Inr info' \<Rightarrow> parse_lines lines info')"

definition parse_yubikey_info :: "pystr \<Rightarrow> exn + parsed_info" where
  "parse_yubikey_info info_output =
     parse_lines (split info_output 10)
       \<lparr>version = py ''Unknown'', form_factor = py ''Unknown'', device_type = py ''YubiKey''\<rparr>"

text \<open>
  The lines \<open>info['serial'] = serial\<close>, \<open>info['is_fips'] = 'FIPS' in info_output\<close>
  and \<open>info['is_sky'] = 'SKY' in info_output\<close>, which follow every call of
  \<open>parse_yubikey_info\<close> (in \<open>list_yubikeys\<close>, \<open>get_yubikey_info\<close>, \<open>save_yubikey\<close>
  and \<open>yubikey_monitor_task\<close>): the dictionary gets its three other keys.
\<close>

record yubikey_info = parsed_info +
  serial :: int
  is_fips :: bool
  is_sky :: bool

definition tag_info :: "parsed_info \<Rightarrow> int \<Rightarrow> pystr \<Rightarrow> yubikey_info" where
  "tag_info info serial' info_output =
     \<lparr>version = version info, form_factor = form_factor info,
      device_type = device_type info, serial = serial',
      is_fips = py_in (py ''FIPS'') info_output,
      is_sky = py_in (py ''SKY'') info_output\<rparr>"

text \<open>The dictionary that the error handlers append when a device gave no details.\<close>

definition unknown_info :: "int \<Rightarrow> yubikey_info" where
  "unknown_info serial' =
     \<lparr>version = py ''Unknown'', form_factor = py ''Unknown'', device_type = py ''YubiKey'',
      serial = serial', is_fips = False, is_sky = False\<rparr>"

section \<open>run_ykman_command\<close>

text \<open>
  What \<open>subprocess.run(['ykman'] + args, capture_output=True, text=True, timeout=10)\<close>
  does is decided outside the program: the executable is missing, the call times out,
  or it completes with a return code and its two output texts. The model takes that
  outcome as its argument.
\<close>

datatype proc_result = FileNotFoundError | TimeoutExpired | Completed int pystr pystr

fun run_ykman_command :: "proc_result \<Rightarrow> exn + pystr" where
  "run_ykman_command (Completed returncode out err) =
     (if returncode = 0 then Inr (strip out)
      else Inl (Exception (py ''ykman error: '' @ strip err)))"
| "run_ykman_command FileNotFoundError =
     Inl (Exception (py ''ykman command not found. Please install yubikey-manager.''))"
| "run_ykman_command TimeoutExpired = Inl (Exception (py ''ykman command timed out''))"

section \<open>The database and save_yubikey_to_db\<close>

text \<open>
  The two tables, as lists of rows in insertion order. The surrogate keys \<open>id\<close> are
  assigned by the database and read by nothing modelled here; they are left out. Points
  in time (\<open>func.now()\<close>) are natural numbers.
\<close>

record yubikey =
  yk_serial :: int
  yk_version :: pystr
  yk_form_factor :: pystr
  yk_device_type :: pystr
  yk_is_fips :: bool
  yk_is_sky :: bool
  yk_first_seen :: nat
  yk_last_seen :: nat
  yk_raw_info :: pystr

record yubikey_detection =
  det_serial :: int
  det_detected_at :: nat
  det_info_snapshot :: yubikey_info

record database =
  tbl_yubikeys :: "yubikey list"
  tbl_detections :: "yubikey_detection list"

fun update_first :: "('a \<Rightarrow> bool) \<Rightarrow> ('a \<Rightarrow> 'a) \<Rightarrow> 'a list \<Rightarrow> 'a list" where
  "update_first P f [] = []"
| "update_first P f (x # xs) = (if P x then f x # xs else x # update_first P f xs)"

text \<open>
  \<open>save_yubikey_to_db\<close>. \<open>fault\<close> says whether the session raises inside the \<open>try\<close>
  block (at the query or at the commit): the handler then rolls back, so the tables are
  as before, and raises again. \<open>now\<close> is the value of \<open>func.now()\<close>. Every caller
  passes a dictionary with all six keys, so the defaults of \<open>.get\<close> are never taken.
\<close>

definition save_yubikey_to_db ::
  "bool \<Rightarrow> nat \<Rightarrow> database \<Rightarrow> yubikey_info \<Rightarrow> pystr \<Rightarrow> (exn + yubikey) \<times> database" where
  "save_yubikey_to_db fault now db info raw_info =
     (if fault then (Inl DatabaseError, db)
      else
        let detection = \<lparr>det_serial = serial info, det_detected_at = now,
                           det_info_snapshot = info\<rparr>
        in
        (case find (\<lambda>r. yk_serial r = serial info) (tbl_yubikeys db) of
           Some existing_yubikey \<Rightarrow>
             let yubikey_record = existing_yubikey
                   \<lparr>yk_version := version info, yk_form_factor := form_factor info,
                    yk_device_type := device_type info, yk_is_fips := is_fips info,
                    yk_is_sky := is_sky info, yk_last_seen := now,
                    yk_raw_info := raw_info\<rparr>
             in
             (Inr yubikey_record,
              db\<lparr>tbl_yubikeys :=
                    update_first (\<lambda>r. yk_serial r = serial info) (\<lambda>_. yubikey_record)
                      (tbl_yubikeys db),
                  tbl_detections := tbl_detections db @ [detection]\<rparr>)
         | None \<Rightarrow>
             let yubikey_record =
                   \<lparr>yk_serial = serial info, yk_version = version info,
                    yk_form_factor = form_factor info, yk_device_type = device_type info,
                    yk_is_fips = is_fips info, yk_is_sky = is_sky info,
                    yk_first_seen = now, yk_last_seen = now, yk_raw_info = raw_info\<rparr>
             in
             (Inr yubikey_record,
              db\<lparr>tbl_yubikeys := tbl_yubikeys db @ [yubikey_record],
                  tbl_detections := tbl_detections db @ [detection]\<rparr>)))"

section \<open>yubikey_monitor_task\<close>

text \<open>
  What one pass of the \<open>while True\<close> loop meets outside the program: the outcome of
  \<open>ykman list --serials\<close>, the outcome of \<open>ykman --device <serial> info\<close> for each
  serial (the loop asks once per serial and pass), whether the database session raises
  while that serial is saved, and the database's clock at that save.
\<close>

record cycle_env =
  list_serials :: proc_result
  device_info :: "int \<Rightarrow> proc_result"
  db_fault :: "int \<Rightarrow> bool"
  clock :: "int \<Rightarrow> nat"

text \<open>
  The generator \<open>int(s) for s in output.split('\n') if s.strip()\<close>. Python's \<open>int\<close>
  is a parameter \<open>py_int\<close> of the model (\<open>None\<close>: it raises \<open>ValueError\<close>); the first
  item that raises ends the generator.
\<close>

fun ints :: "(pystr \<Rightarrow> int option) \<Rightarrow> pystr list \<Rightarrow> exn + int list" where
  "ints py_int [] = Inr []"
| "ints py_int (s # ss) =
     (if strip s \<noteq> [] then
        (case py_int s of
           None \<Rightarrow> Inl ValueError
         | Some n \<Rightarrow> (case ints py_int ss of Inl e \<Rightarrow> Inl e | Inr ns \<Rightarrow> Inr (n # ns)))
      else ints py_int ss)"

text \<open>
  Lines 441 to 445: the serials of this pass, in the order of the output. The Python
  set \<open>current_serials\<close> is the set of this list.
\<close>

definition read_serials :: "(pystr \<Rightarrow> int option) \<Rightarrow> cycle_env \<Rightarrow> exn + int list" where
  "read_serials py_int env =
     (case run_ykman_command (list_serials env) of
        Inl e \<Rightarrow> Inl e
      | Inr output \<Rightarrow> if output \<noteq> [] then ints py_int (split output 10) else Inr [])"

text \<open>
  The state that the loop reads and writes: its local \<open>previous_serials\<close>, the
  database, and the payloads that \<open>socketio.emit('yubikeys_update', ...)\<close> has sent,
  oldest first.
\<close>

record monitor_state =
  previous_serials :: "int set"
  db :: database
  emitted :: "yubikey_info list list"

text \<open>
  The body of \<open>for serial in current_serials\<close>, for one serial: the dictionaries it
  appends to \<open>yubikeys\<close>, and the database after it. The \<open>try\<close> block appends \<open>info\<close>
  before it saves; the handler of any exception appends the all-unknown dictionary.
\<close>

definition monitor_serial ::
  "cycle_env \<Rightarrow> int \<Rightarrow> database \<Rightarrow> yubikey_info list \<times> database" where
  "monitor_serial env serial' d =
     (case run_ykman_command (device_info env serial') of
        Inl e \<Rightarrow> ([unknown_info serial'], d)
      | Inr info_output \<Rightarrow>
          (case parse_yubikey_info info_output of
             Inl e \<Rightarrow> ([unknown_info serial'], d)
           | Inr parsed \<Rightarrow>
               let info = tag_info parsed serial' info_output in
               (case save_yubikey_to_db (db_fault env serial') (clock env serial') d info
                       info_output of
                  (Inl e, d') \<Rightarrow> ([info, unknown_info serial'], d')
                | (Inr r, d') \<Rightarrow> ([info], d'))))"

fun monitor_serials ::
  "cycle_env \<Rightarrow> int list \<Rightarrow> yubikey_info list \<Rightarrow> database \<Rightarrow> yubikey_info list \<times> database"
  where
  "monitor_serials env [] ykeys d = (ykeys, d)"
| "monitor_serials env (serial' # rest) ykeys d =
     (case monitor_serial env serial' d of
        (entries, d') \<Rightarrow> monitor_serials env rest (ykeys @ entries) d')"

text \<open>
  One pass of the loop. An exception of the enumeration (of \<open>run_ykman_command\<close> or of
  \<open>int\<close>) reaches the outer handler, which prints it: the state is as before. A Python
  set holds each serial once and is iterated in an order the language does not fix; the
  model iterates over \<open>remdups\<close> of the parsed list.
\<close>

definition monitor_cycle ::
  "(pystr \<Rightarrow> int option) \<Rightarrow> cycle_env \<Rightarrow> monitor_state \<Rightarrow> monitor_state" where
  "monitor_cycle py_int env st =
     (case read_serials py_int env of
        Inl e \<Rightarrow> st
      | Inr serials \<Rightarrow>
          let current_serials = set serials in
          if current_serials \<noteq> previous_serials st then
            (case monitor_serials env (remdups serials) [] (db st) of
               (ykeys, d') \<Rightarrow>
                 st\<lparr>previous_serials := current_serials, db := d',
                    emitted := emitted st @ [ykeys]\<rparr>)
          else st)"

text \<open>
  \<open>yubikey_monitor_task\<close> on the passes that a list of environments describes: a
  finite stretch of the endless loop. The task starts with \<open>previous_serials = set()\<close>.
\<close>

fun monitor_cycles ::
  "(pystr \<Rightarrow> int option) \<Rightarrow> cycle_env list \<Rightarrow> monitor_state \<Rightarrow> monitor_state" where
  "monitor_cycles py_int [] st = st"
| "monitor_cycles py_int (env # envs) st =
     monitor_cycles py_int envs (monitor_cycle py_int env st)"

definition yubikey_monitor_task ::
  "(pystr \<Rightarrow> int option) \<Rightarrow> cycle_env list \<Rightarrow> database \<Rightarrow> monitor_state" where
  "yubikey_monitor_task py_int envs d =
     monitor_cycles py_int envs \<lparr>previous_serials = {}, db = d, emitted = []\<rparr>"

text \<open>
  The part of \<open>int\<close> on non-empty strings of ASCII digits, to give \<open>py_int\<close> a value
  in examples.
\<close>

definition ascii_int :: "pystr \<Rightarrow> int option" where
  "ascii_int s =
     (if s \<noteq> [] \<and> list_all (\<lambda>c. 48 \<le> c \<and> c \<le> 57) s
      then Some (int (foldl (\<lambda>a c. 10 * a + (c - 48)) 0 s))
      else None)"

section \<open>handle_connect and handle_disconnect\<close>

text \<open>
  The module's globals \<open>thread\<close> (\<open>None\<close>, or the handle that
  \<open>socketio.start_background_task\<close> returned) and \<open>connected_clients\<close>. \<open>started\<close>
  counts the calls of \<open>socketio.start_background_task(yubikey_monitor_task)\<close>; the handle
  of a task is its number.
\<close>

record fanout =
  thread :: "nat option"
  connected_clients :: int
  started :: nat

text \<open>The two handlers, each run from its first line to its last without interruption.\<close>

definition handle_connect :: "'a fanout_scheme \<Rightarrow> 'a fanout_scheme" where
  "handle_connect g =
     (let g1 = g\<lparr>connected_clients := connected_clients g + 1\<rparr> in
      if thread g1 = None then
        (let g2 = g1\<lparr>started := started g1 + 1\<rparr> in g2\<lparr>thread := Some (started g2)\<rparr>)
      else g1)"

definition handle_disconnect :: "'a fanout_scheme \<Rightarrow> 'a fanout_scheme" where
  "handle_disconnect g = g\<lparr>connected_clients := connected_clients g - 1\<rparr>"

text \<open>
  The application as its events see it: subscribers connect and disconnect, and the
  background task, once started, makes one pass after the other. \<open>Pass env\<close> is one
  pass of the loop of \<open>yubikey_monitor_task\<close>; there is no task, and so no pass, while
  \<open>thread\<close> is \<open>None\<close>. The loop is \<open>while True\<close> with no \<open>break\<close> or \<open>return\<close>, and
  it reads neither \<open>thread\<close> nor \<open>connected_clients\<close>.
\<close>

datatype event = Connect | Disconnect | Pass cycle_env

record app =
  fan :: fanout
  mon :: monitor_state

fun app_step :: "(pystr \<Rightarrow> int option) \<Rightarrow> event \<Rightarrow> app \<Rightarrow> app" where
  "app_step py_int Connect a = a\<lparr>fan := handle_connect (fan a)\<rparr>"
| "app_step py_int Disconnect a = a\<lparr>fan := handle_disconnect (fan a)\<rparr>"
| "app_step py_int (Pass env) a =
     (if thread (fan a) = None then a else a\<lparr>mon := monitor_cycle py_int env (mon a)\<rparr>)"

fun app_run :: "(pystr \<Rightarrow> int option) \<Rightarrow> event list \<Rightarrow> app \<Rightarrow> app" where
  "app_run py_int [] a = a"
| "app_run py_int (ev # evs) a = app_run py_int evs (app_step py_int ev a)"

text \<open>The passes among a list of events, in their order.\<close>

fun passes :: "event list \<Rightarrow> cycle_env list" where
  "passes [] = []"
| "passes (Pass env # evs) = env # passes evs"
| "passes (ev # evs) = passes evs"

subsection \<open>Handlers that run at the same time\<close>

text \<open>
  Each connect or disconnect event runs its handler in a thread of its own. A handler
  is at one of these points: before \<open>with thread_lock\<close>; holding the lock, before the
  update of \<open>connected_clients\<close>; before the test \<open>thread is None\<close>; before the call of
  \<open>start_background_task\<close>; before the assignment to \<open>thread\<close>; before the release of
  the lock; finished.
\<close>

datatype handler = OnConnect | OnDisconnect

datatype pc = Waiting | Locked | Counted | Starting | Assigning | Releasing | Finished

record shared = fanout +
  thread_lock :: bool

text \<open>
  One statement of one handler. A handler that waits for a lock that is held stays
  where it is.
\<close>

fun handler_step :: "handler \<Rightarrow> pc \<Rightarrow> shared \<Rightarrow> pc \<times> shared" where
  "handler_step h Waiting g =
     (if thread_lock g then (Waiting, g) else (Locked, g\<lparr>thread_lock := True\<rparr>))"
| "handler_step OnConnect Locked g =
     (Counted, g\<lparr>connected_clients := connected_clients g + 1\<rparr>)"
| "handler_step OnDisconnect Locked g =
     (Releasing, g\<lparr>connected_clients := connected_clients g - 1\<rparr>)"
| "handler_step h Counted g =
     (if thread g = None then (Starting, g) else (Releasing, g))"
| "handler_step h Starting g = (Assigning, g\<lparr>started := started g + 1\<rparr>)"
| "handler_step h Assigning g = (Releasing, g\<lparr>thread := Some (started g)\<rparr>)"
| "handler_step h Releasing g = (Finished, g\<lparr>thread_lock := False\<rparr>)"
| "handler_step h Finished g = (Finished, g)"

text \<open>
  The handlers with their points, and the shared state. \<open>step i\<close> lets handler \<open>i\<close>
  run one statement; a schedule is the list of the handlers that run, in order, so the
  schedules are all the ways in which the handlers can interleave.
\<close>

type_synonym system = "(handler \<times> pc) list \<times> shared"

definition step :: "nat \<Rightarrow> system \<Rightarrow> system" where
  "step i sys =
     (case sys of
        (hs, g) \<Rightarrow>
          if i < length hs then
            (case hs ! i of
               (h, p) \<Rightarrow>
                 (case handler_step h p g of (p', g') \<Rightarrow> (hs[i := (h, p')], g')))
          else sys)"

fun run :: "nat list \<Rightarrow> system \<Rightarrow> system" where
  "run [] sys = sys"
| "run (i # sched) sys = run sched (step i sys)"

text \<open>
  The start of the process: \<open>thread = None\<close>, \<open>connected_clients = 0\<close>, the lock free,
  and the given handlers about to run.
\<close>

definition initial :: "handler list \<Rightarrow> system" where
  "initial hs =
     (map (\<lambda>h. (h, Waiting)) hs,
      \<lparr>thread = None, connected_clients = 0, started = 0, thread_lock = False\<rparr>)"

definition all_finished :: "system \<Rightarrow> bool" where
  "all_finished sys = list_all (\<lambda>hp. snd hp = Finished) (fst sys)"

section \<open>The claims' own notions\<close>

text \<open>
  The value that a label's lines give a field, read from the lines of the text: the
  line is stripped, and the value is what follows the label, stripped. \<open>first_value\<close>
  takes the first line with the label, \<open>last_value\<close> the last; with no such line the
  field keeps its default.
\<close>

definition label_lines :: "pystr \<Rightarrow> pystr list \<Rightarrow> pystr list" where
  "label_lines label lines = filter (\<lambda>l. startswith l label) (map strip lines)"

definition first_value :: "pystr \<Rightarrow> pystr list \<Rightarrow> pystr \<Rightarrow> pystr" where
  "first_value label lines dflt =
     (case label_lines label lines of
        [] \<Rightarrow> dflt
      | l # ls \<Rightarrow> strip (drop (length label) l))"

definition last_value :: "pystr \<Rightarrow> pystr list \<Rightarrow> pystr \<Rightarrow> pystr" where
  "last_value label lines dflt =
     (case label_lines label lines of
        [] \<Rightarrow> dflt
      | l # ls \<Rightarrow> strip (drop (length label) (last (l # ls))))"

text \<open>
  A poll is the enumeration of one pass: the set of serials that it reports, or \<open>None\<close>
  when it fails. A serial is saved in a pass that fetches its details when the device
  answers and the database does not raise.
\<close>

definition poll :: "(pystr \<Rightarrow> int option) \<Rightarrow> cycle_env \<Rightarrow> int set option" where
  "poll py_int env =
     (case read_serials py_int env of Inl e \<Rightarrow> None | Inr serials \<Rightarrow> Some (set serials))"

definition saved :: "cycle_env \<Rightarrow> int \<Rightarrow> bool" where
  "saved env s = (\<not> isl (run_ykman_command (device_info env s)) \<and> \<not> db_fault env s)"

text \<open>
  The rows of the \<open>yubikeys\<close> table for one serial, and the rows of the
  \<open>yubikey_detections\<close> table for it.
\<close>

definition rows_of :: "int \<Rightarrow> database \<Rightarrow> yubikey list" where
  "rows_of s d = filter (\<lambda>r. yk_serial r = s) (tbl_yubikeys d)"

definition events_of :: "int \<Rightarrow> database \<Rightarrow> yubikey_detection list" where
  "events_of s d = filter (\<lambda>e. det_serial e = s) (tbl_detections d)"

text \<open>
  What holds while handlers interleave. A handler is inside the \<open>with thread_lock\<close>
  block from the point after it took the lock to the point before it releases it. The
  globals agree when \<open>started\<close> is 0 with \<open>thread = None\<close> and 1 otherwise. For each
  point of a handler, \<open>at_point\<close> says what the globals are like there; \<open>lock_inv\<close>
  says that the handlers inside the block are one when the lock is held and none when
  it is free, that every handler finds the globals as its point says, and that the
  globals agree while the lock is free.
\<close>

definition in_section :: "handler \<times> pc \<Rightarrow> bool" where
  "in_section hp = (snd hp \<noteq> Waiting \<and> snd hp \<noteq> Finished)"

definition agree :: "shared \<Rightarrow> bool" where
  "agree g = (started g = (if thread g = None then 0 else 1))"

fun at_point :: "shared \<Rightarrow> handler \<times> pc \<Rightarrow> bool" where
  "at_point g (h, Waiting) = True"
| "at_point g (h, Locked) = agree g"
| "at_point g (h, Counted) = agree g"
| "at_point g (h, Starting) = (thread g = None \<and> started g = 0)"
| "at_point g (h, Assigning) = (thread g = None \<and> started g = 1)"
| "at_point g (OnConnect, Releasing) = (thread g \<noteq> None \<and> started g = 1)"
| "at_point g (OnDisconnect, Releasing) = agree g"
| "at_point g (OnConnect, Finished) = (thread g \<noteq> None)"
| "at_point g (OnDisconnect, Finished) = True"

definition lock_inv :: "system \<Rightarrow> bool" where
  "lock_inv sys =
     (case sys of
        (hs, g) \<Rightarrow>
          length (filter in_section hs) = (if thread_lock g then 1 else 0) \<and>
          list_all (at_point g) hs \<and>
          (thread_lock g \<or> agree g))"

section \<open>Example environments\<close>

text \<open>
  An empty database, the monitor before its first pass, and passes in which: the device
  12345678 is attached and answers; it is attached and \<open>ykman info\<close> times out; it
  answers and the database raises; the devices 1 and 2 are attached; \<open>ykman\<close> is not
  installed.
\<close>

definition empty_db :: database where
  "empty_db = \<lparr>tbl_yubikeys = [], tbl_detections = []\<rparr>"

definition fresh :: monitor_state where
  "fresh = \<lparr>previous_serials = {}, db = empty_db, emitted = []\<rparr>"

definition info_text :: pystr where
  "info_text =
     py ''Device type: YubiKey 5'' @ [10] @ py ''Firmware version: 5.4.3'' @ [10] @
     py ''Form factor: USB-A Keychain'' @ [10]"

definition env_one :: cycle_env where
  "env_one =
     \<lparr>list_serials = Completed 0 (py ''12345678'' @ [10]) [],
      device_info = (\<lambda>s. Completed 0 info_text []),
      db_fault = (\<lambda>s. False), clock = (\<lambda>s. 7)\<rparr>"

definition env_timeout :: cycle_env where
  "env_timeout = env_one\<lparr>device_info := (\<lambda>s. TimeoutExpired)\<rparr>"

definition env_db_down :: cycle_env where
  "env_db_down = env_one\<lparr>db_fault := (\<lambda>s. True)\<rparr>"

definition env_two :: cycle_env where
  "env_two = env_one\<lparr>list_serials := Completed 0 (py ''1'' @ [10] @ py ''2'' @ [10]) []\<rparr>"

definition env_no_ykman :: cycle_env where
  "env_no_ykman = env_one\<lparr>list_serials := FileNotFoundError\<rparr>"

text \<open>The application before its first event.\<close>

definition app0 :: app where
  "app0 = \<lparr>fan = \<lparr>thread = None, connected_clients = 0, started = 0\<rparr>, mon = fresh\<rparr>"

text \<open>The dictionary of the device 12345678 with a given firmware version.\<close>

definition firmware_info :: "pystr \<Rightarrow> yubikey_info" where
  "firmware_info v =
     \<lparr>version = v, form_factor = py ''USB-A Keychain'', device_type = py ''YubiKey 5'',
      serial = 12345678, is_fips = False, is_sky = False\<rparr>"

section \<open>Strings\<close>

lemma startswith_append: "startswith s p \<longleftrightarrow> (\<exists>r. s = p @ r)"
  unfolding startswith_def
proof
  assume "take (length p) s = p"
  then have "s = p @ drop (length p) s" by (metis append_take_drop_id)
  then show "\<exists>r. s = p @ r" ..
next
  assume "\<exists>r. s = p @ r"
  then show "take (length p) s = p" by auto
qed

lemma startswith_take: "startswith s p \<Longrightarrow> n \<le> length p \<Longrightarrow> take n s = take n p"
  by (auto simp: startswith_append)

lemma split1_label:
  assumes "startswith line (l @ [sep])" and "sep \<notin> set l"
  shows "split1 line sep = [l, drop (Suc (length l)) line]"
proof -
  from assms(1) obtain r where line: "line = l @ sep # r"
    by (auto simp: startswith_append)
  have "dropWhile (\<lambda>c. c \<noteq> sep) line = sep # r"
    using assms(2) unfolding line by (induction l) auto
  moreover have "takeWhile (\<lambda>c. c \<noteq> sep) line = l"
    using assms(2) unfolding line by (induction l) auto
  ultimately show ?thesis by (simp add: split1_def line)
qed

lemma label_firmware: "py ''Firmware version:'' = py ''Firmware version'' @ [58]"
  and label_form: "py ''Form factor:'' = py ''Form factor'' @ [58]"
  and label_device: "py ''Device type:'' = py ''Device type'' @ [58]"
  by (simp_all add: py_def)

lemma colon_free:
  "58 \<notin> set (py ''Firmware version'')" "58 \<notin> set (py ''Form factor'')"
  "58 \<notin> set (py ''Device type'')"
  by (simp_all add: py_def)

lemma value_firmware:
  "startswith line (py ''Firmware version:'') \<Longrightarrow>
   index (split1 line 58) (Suc 0) = Inr (drop (length (py ''Firmware version:'')) line)"
  using split1_label [of line "py ''Firmware version''" 58] colon_free(1)
  by (simp add: label_firmware index_def)

lemma value_form:
  "startswith line (py ''Form factor:'') \<Longrightarrow>
   index (split1 line 58) (Suc 0) = Inr (drop (length (py ''Form factor:'')) line)"
  using split1_label [of line "py ''Form factor''" 58] colon_free(2)
  by (simp add: label_form index_def)

lemma value_device:
  "startswith line (py ''Device type:'') \<Longrightarrow>
   index (split1 line 58) (Suc 0) = Inr (drop (length (py ''Device type:'')) line)"
  using split1_label [of line "py ''Device type''" 58] colon_free(3)
  by (simp add: label_device index_def)

lemma labels_exclusive:
  "startswith s (py ''Firmware version:'') \<Longrightarrow> \<not> startswith s (py ''Form factor:'')"
  "startswith s (py ''Firmware version:'') \<Longrightarrow> \<not> startswith s (py ''Device type:'')"
  "startswith s (py ''Form factor:'') \<Longrightarrow> \<not> startswith s (py ''Device type:'')"
proof -
  show "startswith s (py ''Firmware version:'') \<Longrightarrow> \<not> startswith s (py ''Form factor:'')"
    using startswith_take [of s "py ''Firmware version:''" 2]
      startswith_take [of s "py ''Form factor:''" 2]
    by (auto simp: py_def)
  show "startswith s (py ''Firmware version:'') \<Longrightarrow> \<not> startswith s (py ''Device type:'')"
    using startswith_take [of s "py ''Firmware version:''" 1]
      startswith_take [of s "py ''Device type:''" 1]
    by (auto simp: py_def)
  show "startswith s (py ''Form factor:'') \<Longrightarrow> \<not> startswith s (py ''Device type:'')"
    using startswith_take [of s "py ''Form factor:''" 1]
      startswith_take [of s "py ''Device type:''" 1]
    by (auto simp: py_def)
qed

lemma parse_line_fields:
  "\<exists>info'. parse_line l info = Inr info' \<and>
     version info' =
       (if startswith (strip l) (py ''Firmware version:'')
        then strip (drop (length (py ''Firmware version:'')) (strip l)) else version info) \<and>
     form_factor info' =
       (if startswith (strip l) (py ''Form factor:'')
        then strip (drop (length (py ''Form factor:'')) (strip l)) else form_factor info) \<and>
     device_type info' =
       (if startswith (strip l) (py ''Device type:'')
        then strip (drop (length (py ''Device type:'')) (strip l)) else device_type info)"
proof (cases "startswith (strip l) (py ''Firmware version:'')")
  case True
  then show ?thesis
    using labels_exclusive(1,2) [of "strip l"]
    by (simp add: parse_line_def value_firmware)
next
  case fw: False
  show ?thesis
  proof (cases "startswith (strip l) (py ''Form factor:'')")
    case True
    then show ?thesis
      using fw labels_exclusive(3) [of "strip l"]
      by (simp add: parse_line_def value_form)
  next
    case ff: False
    show ?thesis
    proof (cases "startswith (strip l) (py ''Device type:'')")
      case True
      then show ?thesis
        using fw ff by (simp add: parse_line_def value_device)
    next
      case False
      then show ?thesis
        using fw ff by (simp add: parse_line_def)
    qed
  qed
qed

lemma last_value_Cons:
  "last_value label (l # ls) d =
     last_value label ls
       (if startswith (strip l) label then strip (drop (length label) (strip l)) else d)"
  by (cases "filter (\<lambda>l. startswith l label) (map strip ls)")
    (simp_all add: last_value_def label_lines_def)

lemma parse_lines_fields:
  "\<exists>info'. parse_lines ls info = Inr info' \<and>
     version info' = last_value (py ''Firmware version:'') ls (version info) \<and>
     form_factor info' = last_value (py ''Form factor:'') ls (form_factor info) \<and>
     device_type info' = last_value (py ''Device type:'') ls (device_type info)"
proof (induction ls arbitrary: info)
  case Nil
  show ?case by (simp add: last_value_def label_lines_def)
next
  case (Cons l ls)
  obtain info1 where l: "parse_line l info = Inr info1"
    and v: "version info1 =
       (if startswith (strip l) (py ''Firmware version:'')
        then strip (drop (length (py ''Firmware version:'')) (strip l)) else version info)"
    and f: "form_factor info1 =
       (if startswith (strip l) (py ''Form factor:'')
        then strip (drop (length (py ''Form factor:'')) (strip l)) else form_factor info)"
    and d: "device_type info1 =
       (if startswith (strip l) (py ''Device type:'')
        then strip (drop (length (py ''Device type:'')) (strip l)) else device_type info)"
    using parse_line_fields [of l info] by blast
  from Cons.IH [of info1] obtain info' where
    "parse_lines ls info1 = Inr info'"
    "version info' = last_value (py ''Firmware version:'') ls (version info1)"
    "form_factor info' = last_value (py ''Form factor:'') ls (form_factor info1)"
    "device_type info' = last_value (py ''Device type:'') ls (device_type info1)"
    by blast
  then show ?case
    using l by (simp add: last_value_Cons v f d)
qed

lemma parse_yubikey_info_fields:
  "\<exists>info. parse_yubikey_info text = Inr info \<and>
     version info = last_value (py ''Firmware version:'') (split text 10) (py ''Unknown'') \<and>
     form_factor info = last_value (py ''Form factor:'') (split text 10) (py ''Unknown'') \<and>
     device_type info = last_value (py ''Device type:'') (split text 10) (py ''YubiKey'')"
  using parse_lines_fields
    [of "split text 10"
      "\<lparr>version = py ''Unknown'', form_factor = py ''Unknown'', device_type = py ''YubiKey''\<rparr>"]
  by (simp add: parse_yubikey_info_def)

lemma split_example:
  "split (py ''a'' @ [10, 10] @ py ''b'' @ [10]) 10 = [py ''a'', [], py ''b'', []]"
  "split [] 10 = [[]]"
  by (simp_all add: split_def py_def)

lemma two_firmware_lines:
  "split (py ''Firmware version: 1'' @ [10] @ py ''Firmware version: 2'') 10 =
     [py ''Firmware version: 1'', py ''Firmware version: 2'']"
  by (simp add: split_def py_def)

lemma strip_firmware_lines:
  "strip (py ''Firmware version: 1'') = py ''Firmware version: 1''"
  "strip (py ''Firmware version: 2'') = py ''Firmware version: 2''"
  "strip (py '' 1'') = py ''1''" "strip (py '' 2'') = py ''2''"
  by (simp_all add: strip_def py_def isspace_def)

lemma py_in_iff: "py_in sub s \<longleftrightarrow> (\<exists>a b. s = a @ sub @ b)"
proof (induction s)
  case Nil
  show ?case by auto
next
  case (Cons c cs)
  show ?case
  proof
    assume "py_in sub (c # cs)"
    then consider "startswith (c # cs) sub" | "py_in sub cs" by auto
    then show "\<exists>a b. c # cs = a @ sub @ b"
    proof cases
      case 1
      then obtain r where "c # cs = sub @ r" by (auto simp: startswith_append)
      then have "c # cs = [] @ sub @ r" by simp
      then show ?thesis by blast
    next
      case 2
      then obtain a b where "cs = a @ sub @ b" using Cons.IH by blast
      then have "c # cs = (c # a) @ sub @ b" by simp
      then show ?thesis by blast
    qed
  next
    assume "\<exists>a b. c # cs = a @ sub @ b"
    then obtain a b where ab: "c # cs = a @ sub @ b" by blast
    show "py_in sub (c # cs)"
    proof (cases a)
      case Nil
      then have "startswith (c # cs) sub" using ab by (auto simp: startswith_append)
      then show ?thesis by simp
    next
      case (Cons x a')
      then have "cs = a' @ sub @ b" using ab by simp
      then have "py_in sub cs" using Cons.IH by blast
      then show ?thesis by simp
    qed
  qed
qed

section \<open>The parser and the capability flags\<close>

text \<open>
  Claim C2, amended. For every text \<open>parse_yubikey_info\<close> returns a dictionary (the
  \<open>IndexError\<close> of \<open>split(':', 1)[1]\<close> cannot occur), and each of its three fields
  is the trimmed value of the LAST line that, once stripped, begins with the field's
  label; a field with no such line keeps its default.
\<close>

theorem parse_yubikey_info_last_match:
  "\<exists>info. parse_yubikey_info text = Inr info \<and>
     version info = last_value (py ''Firmware version:'') (split text 10) (py ''Unknown'') \<and>
     form_factor info = last_value (py ''Form factor:'') (split text 10) (py ''Unknown'') \<and>
     device_type info = last_value (py ''Device type:'') (split text 10) (py ''YubiKey'')"
  by (rule parse_yubikey_info_fields)

text \<open>
  Claim C2 as stated fails: the text of the two lines \<open>Firmware version: 1\<close> and
  \<open>Firmware version: 2\<close> does not give the version of its first labelled line (it
  gives \<open>2\<close>, the loop assigns the key again at every such line).
\<close>

theorem parse_yubikey_info_not_first_match:
  "\<not> (\<exists>info.
        parse_yubikey_info (py ''Firmware version: 1'' @ [10] @ py ''Firmware version: 2'')
          = Inr info \<and>
        version info =
          first_value (py ''Firmware version:'')
            (split (py ''Firmware version: 1'' @ [10] @ py ''Firmware version: 2'') 10)
            (py ''Unknown''))"
proof
  let ?t = "py ''Firmware version: 1'' @ [10] @ py ''Firmware version: 2''"
  assume "\<exists>info. parse_yubikey_info ?t = Inr info \<and>
    version info = first_value (py ''Firmware version:'') (split ?t 10) (py ''Unknown'')"
  then obtain info where p: "parse_yubikey_info ?t = Inr info"
    and v: "version info = first_value (py ''Firmware version:'') (split ?t 10) (py ''Unknown'')"
    by blast
  obtain info' where p': "parse_yubikey_info ?t = Inr info'"
    and v': "version info' = last_value (py ''Firmware version:'') (split ?t 10) (py ''Unknown'')"
    using parse_yubikey_info_fields [of ?t] by blast
  have same: "info' = info" using p p' by simp
  have first: "first_value (py ''Firmware version:'')
          [py ''Firmware version: 1'', py ''Firmware version: 2''] (py ''Unknown'') = py ''1''"
    by (simp add: first_value_def label_lines_def strip_firmware_lines)
      (simp add: startswith_def py_def strip_def isspace_def)
  have last: "last_value (py ''Firmware version:'')
          [py ''Firmware version: 1'', py ''Firmware version: 2''] (py ''Unknown'') = py ''2''"
    by (simp add: last_value_def label_lines_def strip_firmware_lines)
      (simp add: startswith_def py_def strip_def isspace_def)
  have "version info = py ''1''" using v unfolding two_firmware_lines first .
  moreover have "version info = py ''2''" using v' unfolding two_firmware_lines last same .
  ultimately have "py ''1'' = py ''2''" by simp
  then show False by (simp add: py_def)
qed

text \<open>
  Claim C9. The two capability flags are substring tests on the whole text of
  \<open>ykman info\<close>, code point by code point (so in the case of the letters as given):
  \<open>is_fips\<close> holds exactly when \<open>FIPS\<close> occurs somewhere in it, \<open>is_sky\<close> exactly when
  \<open>SKY\<close> does; neither depends on the parsed fields or on the serial.
\<close>

theorem capability_flags_are_substring_tests:
  "is_fips (tag_info info s out) = (\<exists>a b. out = a @ py ''FIPS'' @ b) \<and>
   is_sky (tag_info info s out) = (\<exists>a b. out = a @ py ''SKY'' @ b)"
  by (simp add: tag_info_def py_in_iff)

section \<open>One pass of the monitor\<close>

lemma parse_total: "\<exists>p. parse_yubikey_info text = Inr p"
  using parse_yubikey_info_fields [of "text"] by blast

lemma monitor_serial_failed:
  "run_ykman_command (device_info env s) = Inl e \<Longrightarrow>
   monitor_serial env s d = ([unknown_info s], d)"
  by (simp add: monitor_serial_def)

lemma monitor_serial_fault:
  "run_ykman_command (device_info env s) = Inr text \<Longrightarrow> parse_yubikey_info text = Inr p \<Longrightarrow>
   db_fault env s \<Longrightarrow>
   monitor_serial env s d = ([tag_info p s text, unknown_info s], d)"
  by (simp add: monitor_serial_def save_yubikey_to_db_def)

lemma monitor_serial_saved:
  "run_ykman_command (device_info env s) = Inr text \<Longrightarrow> parse_yubikey_info text = Inr p \<Longrightarrow>
   \<not> db_fault env s \<Longrightarrow>
   monitor_serial env s d =
     ([tag_info p s text],
      snd (save_yubikey_to_db False (clock env s) d (tag_info p s text) text))"
  by (simp add: monitor_serial_def Let_def split: prod.splits sum.splits)
    (auto simp: save_yubikey_to_db_def Let_def split: option.splits)

lemma save_detections:
  "tbl_detections (snd (save_yubikey_to_db False t d info raw)) =
     tbl_detections d @ [\<lparr>det_serial = serial info, det_detected_at = t, det_info_snapshot = info\<rparr>]"
  by (simp add: save_yubikey_to_db_def Let_def split: option.splits)

lemma monitor_serial_cases:
  obtains (failed) e where "run_ykman_command (device_info env s) = Inl e"
  | (fault) out p where "run_ykman_command (device_info env s) = Inr out"
      and "parse_yubikey_info out = Inr p" and "db_fault env s"
  | (saved) out p where "run_ykman_command (device_info env s) = Inr out"
      and "parse_yubikey_info out = Inr p" and "\<not> db_fault env s"
proof (cases "run_ykman_command (device_info env s)")
  case (Inl e)
  then show ?thesis by (rule failed)
next
  case (Inr out)
  obtain p where "parse_yubikey_info out = Inr p" using parse_total by blast
  with Inr show ?thesis by (cases "db_fault env s") (auto intro: fault saved)
qed

lemma monitor_serial_writes:
  "length (tbl_detections (snd (monitor_serial env s d))) =
     length (tbl_detections d) + (if saved env s then 1 else 0)"
  by (cases env s rule: monitor_serial_cases)
    (simp_all add: monitor_serial_failed monitor_serial_fault monitor_serial_saved
      save_detections saved_def)

lemma monitor_serial_entries_db:
  "fst (monitor_serial env s d) = fst (monitor_serial env s d')"
  by (cases env s rule: monitor_serial_cases)
    (simp_all add: monitor_serial_failed monitor_serial_fault monitor_serial_saved)

lemma monitor_serial_serial:
  "fst (monitor_serial env s d) \<noteq> [] \<and> list_all (\<lambda>i. serial i = s) (fst (monitor_serial env s d))"
  by (cases env s rule: monitor_serial_cases)
    (simp_all add: monitor_serial_failed monitor_serial_fault monitor_serial_saved
      tag_info_def unknown_info_def)

lemma monitor_serials_entries:
  "fst (monitor_serials env ss acc d) =
     acc @ concat (map (\<lambda>s. fst (monitor_serial env s d0)) ss)"
proof (induction ss arbitrary: acc d)
  case Nil
  show ?case by simp
next
  case (Cons s ss)
  show ?case
    using Cons.IH monitor_serial_entries_db [of env s d d0]
    by (simp split: prod.splits) (metis fst_conv)
qed

lemma monitor_serials_writes:
  "length (tbl_detections (snd (monitor_serials env ss acc d))) =
     length (tbl_detections d) + length (filter (saved env) ss)"
proof (induction ss arbitrary: acc d)
  case Nil
  show ?case by simp
next
  case (Cons s ss)
  show ?case
    using Cons.IH monitor_serial_writes [of env s d]
    by (auto split: prod.splits)
qed

lemma entries_of_serial:
  "distinct ss \<Longrightarrow> s \<in> set ss \<Longrightarrow>
   filter (\<lambda>i. serial i = s) (concat (map (\<lambda>s'. fst (monitor_serial env s' d0)) ss)) =
     fst (monitor_serial env s d0)"
proof (induction ss)
  case Nil
  then show ?case by simp
next
  case (Cons a ss)
  have other: "filter (\<lambda>i. serial i = s) (fst (monitor_serial env s' d0)) = []" if "s' \<noteq> s" for s'
    using monitor_serial_serial [of env s' d0] that
    by (auto simp: filter_empty_conv list_all_iff)
  have own: "filter (\<lambda>i. serial i = s) (fst (monitor_serial env s d0)) = fst (monitor_serial env s d0)"
    using monitor_serial_serial [of env s d0] by (auto simp: list_all_iff)
  have rest: "filter (\<lambda>i. serial i = s) (concat (map (\<lambda>s'. fst (monitor_serial env s' d0)) ss)) = []"
    if "s \<notin> set ss"
    using that other by (induction ss) auto
  show ?case
  proof (cases "a = s")
    case True
    then show ?thesis using Cons.prems own rest by simp
  next
    case False
    then show ?thesis using Cons other by simp
  qed
qed

lemma serials_of_entries:
  "serial ` set (concat (map (\<lambda>s'. fst (monitor_serial env s' d0)) ss)) = set ss"
proof (induction ss)
  case Nil
  show ?case by simp
next
  case (Cons a ss)
  have "serial ` set (fst (monitor_serial env a d0)) = {a}"
    using monitor_serial_serial [of env a d0]
    by (cases "fst (monitor_serial env a d0)") (auto simp: list_all_iff)
  then show ?case using Cons by (simp add: image_Un)
qed

lemma monitor_cycle_failed: "poll py_int env = None \<Longrightarrow> monitor_cycle py_int env st = st"
  by (simp add: poll_def monitor_cycle_def split: sum.splits)

lemma monitor_cycle_idle:
  "poll py_int env = Some (previous_serials st) \<Longrightarrow> monitor_cycle py_int env st = st"
  by (auto simp: poll_def monitor_cycle_def Let_def split: sum.splits)

lemma monitor_cycle_change:
  assumes "poll py_int env = Some S" and "S \<noteq> previous_serials st"
  shows "\<exists>ss. set ss = S \<and> distinct ss \<and>
    monitor_cycle py_int env st =
      st\<lparr>previous_serials := S, db := snd (monitor_serials env ss [] (db st)),
         emitted := emitted st @ [fst (monitor_serials env ss [] (db st))]\<rparr>"
proof -
  from assms(1) obtain serials where r: "read_serials py_int env = Inr serials"
    and S: "S = set serials"
    by (auto simp: poll_def split: sum.splits)
  have "monitor_cycle py_int env st =
      st\<lparr>previous_serials := S, db := snd (monitor_serials env (remdups serials) [] (db st)),
         emitted := emitted st @ [fst (monitor_serials env (remdups serials) [] (db st))]\<rparr>"
    using assms(2) r S by (simp add: monitor_cycle_def Let_def split: prod.splits)
  then show ?thesis using S by (intro exI [of _ "remdups serials"]) simp
qed

lemma poll_env_one: "poll ascii_int env_one = Some {12345678}"
  by (simp add: poll_def read_serials_def env_one_def strip_def isspace_def py_def split_def
      ascii_int_def)

lemma poll_env_two: "poll ascii_int env_two = Some {1, 2}"
  by (simp add: poll_def read_serials_def env_one_def env_two_def strip_def isspace_def py_def
      split_def ascii_int_def)

lemma poll_env_timeout: "poll ascii_int env_timeout = Some {12345678}"
  using poll_env_one by (simp add: poll_def read_serials_def env_timeout_def)

lemma poll_env_db_down: "poll ascii_int env_db_down = Some {12345678}"
  using poll_env_one by (simp add: poll_def read_serials_def env_db_down_def)

lemma poll_env_no_ykman: "poll py_int env_no_ykman = None"
  by (simp add: poll_def read_serials_def env_no_ykman_def)

lemma distinct_filter_card: "distinct ss \<Longrightarrow> length (filter P ss) = card {s \<in> set ss. P s}"
  by (simp add: distinct_length_filter Int_def conj_commute)

lemma monitor_cycles_idle:
  "list_all (\<lambda>env. poll py_int env = Some (previous_serials st)) envs \<Longrightarrow>
   monitor_cycles py_int envs st = st"
  by (induction envs) (simp_all add: monitor_cycle_idle)

lemma monitor_cycle_change_effects:
  assumes "poll py_int env = Some S" and "S \<noteq> previous_serials st"
  shows "\<exists>ykeys. emitted (monitor_cycle py_int env st) = emitted st @ [ykeys] \<and>
     serial ` set ykeys = S \<and>
     (\<forall>s\<in>S. filter (\<lambda>i. serial i = s) ykeys = fst (monitor_serial env s (db st))) \<and>
     previous_serials (monitor_cycle py_int env st) = S \<and>
     length (tbl_detections (db (monitor_cycle py_int env st))) =
       length (tbl_detections (db st)) + card {s \<in> S. saved env s}"
proof -
  from monitor_cycle_change [OF assms] obtain ss where ss: "set ss = S" "distinct ss"
    and c: "monitor_cycle py_int env st =
      st\<lparr>previous_serials := S, db := snd (monitor_serials env ss [] (db st)),
         emitted := emitted st @ [fst (monitor_serials env ss [] (db st))]\<rparr>"
    by blast
  let ?ykeys = "fst (monitor_serials env ss [] (db st))"
  have e: "?ykeys = concat (map (\<lambda>s. fst (monitor_serial env s (db st))) ss)"
    using monitor_serials_entries [of env ss "[]" "db st" "db st"] by simp
  have "emitted (monitor_cycle py_int env st) = emitted st @ [?ykeys]"
    by (simp add: c)
  moreover have "serial ` set ?ykeys = S"
    unfolding e using serials_of_entries [of env "db st" ss] ss by simp
  moreover have "\<forall>s\<in>S. filter (\<lambda>i. serial i = s) ?ykeys = fst (monitor_serial env s (db st))"
    unfolding e using entries_of_serial [of ss _ env "db st"] ss by simp
  moreover have "previous_serials (monitor_cycle py_int env st) = S"
    by (simp add: c)
  moreover have "length (tbl_detections (db (monitor_cycle py_int env st))) =
       length (tbl_detections (db st)) + card {s \<in> S. saved env s}"
    using monitor_serials_writes [of env ss "[]" "db st"] distinct_filter_card [OF ss(2), of "saved env"] ss(1)
    by (simp add: c)
  ultimately show ?thesis by blast
qed
lemma timeout_fails: "isl (run_ykman_command (device_info env_timeout s))"
  by (simp add: env_timeout_def)

text \<open>
  Claim C4. In a pass whose enumeration succeeds with a set other than the previous
  one, exactly one payload is emitted; the serials of its entries are the serials of the
  current set, none missing and none added; and a serial whose \<open>ykman info\<close> failed has
  the all-unknown dictionary as its one entry.
\<close>

theorem broadcast_has_every_serial:
  assumes "poll py_int env = Some S" and "S \<noteq> previous_serials st"
  shows "\<exists>ykeys. emitted (monitor_cycle py_int env st) = emitted st @ [ykeys] \<and>
     serial ` set ykeys = S \<and>
     (\<forall>s\<in>S. isl (run_ykman_command (device_info env s)) \<longrightarrow>
        filter (\<lambda>i. serial i = s) ykeys = [unknown_info s])"
proof -
  from monitor_cycle_change_effects [OF assms] obtain ykeys where
    e: "emitted (monitor_cycle py_int env st) = emitted st @ [ykeys]"
    and s: "serial ` set ykeys = S"
    and f: "\<forall>s\<in>S. filter (\<lambda>i. serial i = s) ykeys = fst (monitor_serial env s (db st))"
    by blast
  have "filter (\<lambda>i. serial i = s) ykeys = [unknown_info s]"
    if "s \<in> S" and "isl (run_ykman_command (device_info env s))" for s
  proof -
    from that(2) obtain x where "run_ykman_command (device_info env s) = Inl x"
      by (cases "run_ykman_command (device_info env s)") auto
    then show ?thesis using f that(1) by (simp add: monitor_serial_failed)
  qed
  with e s show ?thesis by blast
qed

text \<open>
  Witness for claim C4: the device 12345678 is attached and \<open>ykman info\<close> times out;
  the payload is the all-unknown dictionary of that serial.
\<close>

theorem broadcast_has_every_serial_witness:
  "poll ascii_int env_timeout = Some {12345678} \<and> {12345678} \<noteq> previous_serials fresh \<and>
   isl (run_ykman_command (device_info env_timeout 12345678)) \<and>
   emitted (monitor_cycle ascii_int env_timeout fresh) = [[unknown_info 12345678]]"
proof -
  have ne: "{12345678} \<noteq> previous_serials fresh" by (simp add: fresh_def)
  from broadcast_has_every_serial [OF poll_env_timeout ne] obtain ykeys where
    e: "emitted (monitor_cycle ascii_int env_timeout fresh) = emitted fresh @ [ykeys]"
    and s: "serial ` set ykeys = {12345678}"
    and f: "filter (\<lambda>i. serial i = 12345678) ykeys = [unknown_info 12345678]"
    using timeout_fails by auto
  have "filter (\<lambda>i. serial i = 12345678) ykeys = ykeys"
    using s by (auto simp: filter_id_conv)
  with f have "ykeys = [unknown_info 12345678]" by simp
  with e show ?thesis using poll_env_timeout ne timeout_fails by (simp add: fresh_def)
qed

text \<open>
  Claim C10. In such a pass, a serial whose details were fetched and parsed but whose
  save raised has two entries in the payload: the parsed dictionary, then the
  all-unknown one that the handler appends.
\<close>

theorem failed_save_gives_two_entries:
  assumes "poll py_int env = Some S" and "S \<noteq> previous_serials st" and "s \<in> S"
    and "run_ykman_command (device_info env s) = Inr out" and "db_fault env s"
  shows "\<exists>ykeys parsed. emitted (monitor_cycle py_int env st) = emitted st @ [ykeys] \<and>
     parse_yubikey_info out = Inr parsed \<and>
     filter (\<lambda>i. serial i = s) ykeys = [tag_info parsed s out, unknown_info s]"
proof -
  from monitor_cycle_change_effects [OF assms(1,2)] obtain ykeys where
    e: "emitted (monitor_cycle py_int env st) = emitted st @ [ykeys]"
    and f: "\<forall>s\<in>S. filter (\<lambda>i. serial i = s) ykeys = fst (monitor_serial env s (db st))"
    by blast
  obtain parsed where p: "parse_yubikey_info out = Inr parsed"
    using parse_total by blast
  have "filter (\<lambda>i. serial i = s) ykeys = [tag_info parsed s out, unknown_info s]"
    using f assms(3) monitor_serial_fault [OF assms(4) p assms(5)] by simp
  with e p show ?thesis by blast
qed

text \<open>The text of the example, as \<open>run_ykman_command\<close> returns it and as it is parsed.\<close>

lemma strip_info_text:
  "strip info_text =
     py ''Device type: YubiKey 5'' @ [10] @ py ''Firmware version: 5.4.3'' @ [10] @
     py ''Form factor: USB-A Keychain''"
  by (simp add: info_text_def strip_def isspace_def py_def)

lemma parse_info_text:
  "parse_yubikey_info (strip info_text) =
     Inr \<lparr>version = py ''5.4.3'', form_factor = py ''USB-A Keychain'',
          device_type = py ''YubiKey 5''\<rparr>"
  unfolding strip_info_text
  by (simp add: parse_yubikey_info_def split_def py_def parse_line_def strip_def isspace_def
      startswith_def split1_def index_def)

lemma flags_info_text:
  "\<not> py_in (py ''FIPS'') (strip info_text)" "\<not> py_in (py ''SKY'') (strip info_text)"
  unfolding strip_info_text by (simp_all add: py_def startswith_def)

text \<open>
  Witness for claim C10: the device 12345678 answers with the text of the example and
  the database raises; the payload holds the parsed dictionary and then the all-unknown
  one.
\<close>

theorem failed_save_gives_two_entries_witness:
  "poll ascii_int env_db_down = Some {12345678} \<and> {12345678} \<noteq> previous_serials fresh \<and>
   run_ykman_command (device_info env_db_down 12345678) = Inr (strip info_text) \<and>
   db_fault env_db_down 12345678 \<and>
   emitted (monitor_cycle ascii_int env_db_down fresh) =
     [[\<lparr>version = py ''5.4.3'', form_factor = py ''USB-A Keychain'',
        device_type = py ''YubiKey 5'', serial = 12345678, is_fips = False, is_sky = False\<rparr>,
       unknown_info 12345678]]"
proof -
  have ne: "{12345678} \<noteq> previous_serials fresh" by (simp add: fresh_def)
  have r: "run_ykman_command (device_info env_db_down 12345678) = Inr (strip info_text)"
    by (simp add: env_db_down_def env_one_def)
  have d: "db_fault env_db_down 12345678" by (simp add: env_db_down_def)
  from failed_save_gives_two_entries [OF poll_env_db_down ne _ r d]
  obtain ykeys parsed where
    e: "emitted (monitor_cycle ascii_int env_db_down fresh) = emitted fresh @ [ykeys]"
    and p: "parse_yubikey_info (strip info_text) = Inr parsed"
    and f: "filter (\<lambda>i. serial i = 12345678) ykeys =
      [tag_info parsed 12345678 (strip info_text), unknown_info 12345678]"
    by auto
  from monitor_cycle_change_effects [OF poll_env_db_down ne] e
  have "serial ` set ykeys = {12345678}" by auto
  then have "filter (\<lambda>i. serial i = 12345678) ykeys = ykeys"
    by (auto simp: filter_id_conv)
  with f have "ykeys = [tag_info parsed 12345678 (strip info_text), unknown_info 12345678]"
    by simp
  moreover have "parsed = \<lparr>version = py ''5.4.3'', form_factor = py ''USB-A Keychain'',
          device_type = py ''YubiKey 5''\<rparr>"
    using p parse_info_text by simp
  ultimately show ?thesis
    using e poll_env_db_down ne r d by (simp add: tag_info_def flags_info_text fresh_def)
qed

section \<open>Passes in sequence\<close>

lemma monitor_cycles_identical:
  assumes "list_all (\<lambda>e. poll py_int e = Some S) (env # envs)" and "S \<noteq> previous_serials st"
  shows "monitor_cycles py_int (env # envs) st = monitor_cycle py_int env st"
proof -
  have "poll py_int env = Some S" using assms(1) by simp
  then have "previous_serials (monitor_cycle py_int env st) = S"
    using monitor_cycle_change_effects [OF _ assms(2)] by blast
  then have "list_all (\<lambda>e. poll py_int e = Some (previous_serials (monitor_cycle py_int env st))) envs"
    using assms(1) by simp
  then show ?thesis by (simp add: monitor_cycles_idle)
qed

lemma identical_polls_effects:
  assumes "list_all (\<lambda>e. poll py_int e = Some S) (env # envs)" and "S \<noteq> previous_serials st"
  shows "(\<exists>ykeys. emitted (monitor_cycles py_int (env # envs) st) = emitted st @ [ykeys]) \<and>
     length (tbl_detections (db (monitor_cycles py_int (env # envs) st))) =
       length (tbl_detections (db st)) + card {s \<in> S. saved env s} \<and>
     monitor_cycles py_int (env # envs) st = monitor_cycle py_int env st"
proof -
  have p: "poll py_int env = Some S" using assms(1) by simp
  show ?thesis
    unfolding monitor_cycles_identical [OF assms]
    using monitor_cycle_change_effects [OF p assms(2)]
    by auto
qed

lemma saved_env_one: "saved env_one s" "saved env_two s"
  by (simp_all add: saved_def env_one_def env_two_def)

lemma monitor_serial_events:
  "length (events_of s (snd (monitor_serial env s' d))) =
     length (events_of s d) + (if s' = s \<and> saved env s' then 1 else 0)"
  by (cases env s' rule: monitor_serial_cases)
    (simp_all add: monitor_serial_failed monitor_serial_fault monitor_serial_saved
      save_detections saved_def events_of_def tag_info_def)

lemma monitor_serials_events:
  "distinct ss \<Longrightarrow>
   length (events_of s (snd (monitor_serials env ss acc d))) =
     length (events_of s d) + (if s \<in> set ss \<and> saved env s then 1 else 0)"
proof (induction ss arbitrary: acc d)
  case Nil
  show ?case by simp
next
  case (Cons a ss)
  then have d: "distinct ss" and a: "a \<notin> set ss" by simp_all
  show ?case
    using Cons.IH [OF d] a monitor_serial_events [of s env a d]
    by (auto split: prod.splits)
qed

lemma monitor_cycle_saved_events:
  assumes "poll py_int env = Some S" and "S \<noteq> previous_serials st"
    and "s \<in> S" and "saved env s"
  shows "length (events_of s (db (monitor_cycle py_int env st))) =
    length (events_of s (db st)) + 1"
proof -
  from monitor_cycle_change [OF assms(1,2)] obtain ss where ss: "set ss = S" "distinct ss"
    and c: "monitor_cycle py_int env st =
      st\<lparr>previous_serials := S, db := snd (monitor_serials env ss [] (db st)),
         emitted := emitted st @ [fst (monitor_serials env ss [] (db st))]\<rparr>"
    by blast
  show ?thesis
    using monitor_serials_events [OF ss(2), of s env "[]" "db st"] ss(1) assms(3,4)
    by (simp add: c)
qed


text \<open>
  Claim C3, amended. A pass whose enumeration succeeds with the previous set leaves the
  state as it is: no save, no payload. When one or more passes in a row all enumerate
  the same set \<open>S\<close>, other than the previous one, exactly one payload is emitted; each
  serial of \<open>S\<close> whose details were fetched and whose save did not raise gets exactly
  one new detection row, so when that holds of every serial of \<open>S\<close> the new detection
  rows are as many as the serials of \<open>S\<close>; and the later passes change nothing: the
  state after all of them is the state after the first.
\<close>

theorem identical_polls_write_and_broadcast_once:
  "(poll py_int env' = Some (previous_serials st') \<longrightarrow> monitor_cycle py_int env' st' = st') \<and>
   ((\<forall>e\<in>set (env # envs). poll py_int e = Some S) \<and> S \<noteq> previous_serials st \<longrightarrow>
      (\<exists>ykeys. emitted (monitor_cycles py_int (env # envs) st) = emitted st @ [ykeys]) \<and>
      (\<forall>s\<in>S. saved env s \<longrightarrow>
         length (events_of s (db (monitor_cycles py_int (env # envs) st))) =
           length (events_of s (db st)) + 1) \<and>
      ((\<forall>s\<in>S. saved env s) \<longrightarrow>
         length (tbl_detections (db (monitor_cycles py_int (env # envs) st))) =
           length (tbl_detections (db st)) + card S) \<and>
      monitor_cycles py_int (env # envs) st = monitor_cycle py_int env st)"
proof (intro conjI impI ballI)
  assume "poll py_int env' = Some (previous_serials st')"
  then show "monitor_cycle py_int env' st' = st'" by (rule monitor_cycle_idle)
next
  assume a: "(\<forall>e\<in>set (env # envs). poll py_int e = Some S) \<and> S \<noteq> previous_serials st"
  then have l: "list_all (\<lambda>e. poll py_int e = Some S) (env # envs)"
    unfolding list_all_iff by blast
  from a have ne: "S \<noteq> previous_serials st" and p: "poll py_int env = Some S" by auto
  note r = identical_polls_effects [OF l ne]
  from r have same: "monitor_cycles py_int (env # envs) st = monitor_cycle py_int env st"
    by blast
  from r show "\<exists>ykeys. emitted (monitor_cycles py_int (env # envs) st) = emitted st @ [ykeys]"
    by blast
  show "monitor_cycles py_int (env # envs) st = monitor_cycle py_int env st"
    by (rule same)
  {
    fix s
    assume "s \<in> S" and "saved env s"
    then show "length (events_of s (db (monitor_cycles py_int (env # envs) st))) =
        length (events_of s (db st)) + 1"
      unfolding same using monitor_cycle_saved_events [OF p ne] by blast
  }
  {
    assume "\<forall>s\<in>S. saved env s"
    then have "{s \<in> S. saved env s} = S" by blast
    moreover from r
    have "length (tbl_detections (db (monitor_cycles py_int (env # envs) st))) =
        length (tbl_detections (db st)) + card {s \<in> S. saved env s}"
      by blast
    ultimately show "length (tbl_detections (db (monitor_cycles py_int (env # envs) st))) =
        length (tbl_detections (db st)) + card S"
      by (simp only:)
  }
qed


text \<open>
  Witness for claim C3: two passes that both find the device 12345678, from the start
  of the task: one payload, one new detection row, for that serial; and a pass that
  finds the previous set again.
\<close>

theorem identical_polls_write_and_broadcast_once_witness:
  "poll ascii_int env_one = Some (previous_serials (fresh\<lparr>previous_serials := {12345678}\<rparr>)) \<and>
   monitor_cycle ascii_int env_one (fresh\<lparr>previous_serials := {12345678}\<rparr>) =
     fresh\<lparr>previous_serials := {12345678}\<rparr> \<and>
   poll ascii_int env_one = Some {12345678} \<and> {12345678} \<noteq> previous_serials fresh \<and>
   saved env_one 12345678 \<and>
   length (emitted (monitor_cycles ascii_int [env_one, env_one] fresh)) = 1 \<and>
   length (events_of 12345678 (db (monitor_cycles ascii_int [env_one, env_one] fresh))) =
     length (events_of 12345678 (db fresh)) + 1 \<and>
   length (tbl_detections (db (monitor_cycles ascii_int [env_one, env_one] fresh))) =
     length (tbl_detections (db fresh)) + 1"
  using identical_polls_write_and_broadcast_once
    [of ascii_int env_one "fresh\<lparr>previous_serials := {12345678}\<rparr>" env_one "[env_one]"
      "{12345678}" fresh]
    poll_env_one
  by (auto simp: fresh_def saved_env_one)

text \<open>
  Claim C3 as stated fails: two passes that both find the devices 1 and 2, from the
  start of the task, emit one payload but make two saves, not one.
\<close>

theorem two_devices_two_writes:
  "poll ascii_int env_two = Some {1, 2} \<and> {1, 2} \<noteq> previous_serials fresh \<and>
   length (emitted (monitor_cycles ascii_int [env_two, env_two] fresh)) = 1 \<and>
   length (tbl_detections (db (monitor_cycles ascii_int [env_two, env_two] fresh))) =
     length (tbl_detections (db fresh)) + 2"
proof -
  have ne: "{1, 2} \<noteq> previous_serials fresh" by (simp add: fresh_def)
  have "list_all (\<lambda>e. poll ascii_int e = Some {1, 2}) [env_two, env_two]"
    by (simp add: poll_env_two)
  from identical_polls_effects [OF this ne]
  have e: "\<exists>ykeys. emitted (monitor_cycles ascii_int [env_two, env_two] fresh) =
      emitted fresh @ [ykeys]"
    and w: "length (tbl_detections (db (monitor_cycles ascii_int [env_two, env_two] fresh))) =
      length (tbl_detections (db fresh)) + card {s \<in> {1, 2}. saved env_two s}"
    by blast+
  have "{s \<in> {1, 2 :: int}. saved env_two s} = {1, 2}"
    by (auto simp: saved_env_one)
  then have "card {s \<in> {1, 2 :: int}. saved env_two s} = 2" by simp
  with e w show ?thesis using poll_env_two ne by (auto simp: fresh_def)
qed

lemma monitor_cycle_previous:
  "previous_serials (monitor_cycle py_int env st) =
     (case poll py_int env of None \<Rightarrow> previous_serials st | Some S \<Rightarrow> S)"
proof (cases "poll py_int env")
  case None
  then show ?thesis by (simp add: monitor_cycle_failed)
next
  case (Some S)
  show ?thesis
  proof (cases "S = previous_serials st")
    case True
    then show ?thesis using Some by (simp add: monitor_cycle_idle)
  next
    case False
    then show ?thesis using Some monitor_cycle_change_effects [OF Some False] by auto
  qed
qed

lemma monitor_cycles_previous:
  "previous_serials (monitor_cycles py_int envs st) =
     last (previous_serials st # List.map_filter (poll py_int) envs)"
proof (induction envs arbitrary: st)
  case Nil
  show ?case by simp
next
  case (Cons env envs)
  show ?case
    by (cases "poll py_int env")
      (simp_all add: Cons.IH monitor_cycle_previous)
qed

lemma enumeration_failures:
  "list_serials env = FileNotFoundError \<or> list_serials env = TimeoutExpired \<or>
     (list_serials env = Completed rc out err \<and> rc \<noteq> 0) \<Longrightarrow>
   poll py_int env = None"
  by (auto simp: poll_def read_serials_def)

text \<open>
  Claim C5. An enumeration that fails because \<open>ykman\<close> is missing, times out or exits
  with a code other than 0 reports no set; a pass whose enumeration reports no set
  returns the state it was given (the handler prints the exception and the loop goes
  on), so the previous set is kept; and after any passes, the previous set is the set
  that the latest successful enumeration reported, or the one before the passes when
  none succeeded (the empty set, for the task from its start).
\<close>

theorem failed_enumeration_keeps_previous_set:
  "(list_serials env = FileNotFoundError \<or> list_serials env = TimeoutExpired \<or>
      (list_serials env = Completed rc out err \<and> rc \<noteq> 0) \<longrightarrow> poll py_int env = None) \<and>
   (poll py_int env = None \<longrightarrow> monitor_cycle py_int env st = st) \<and>
   previous_serials (monitor_cycles py_int envs st') =
     last (previous_serials st' # List.map_filter (poll py_int) envs) \<and>
   previous_serials (yubikey_monitor_task py_int envs d) =
     last ({} # List.map_filter (poll py_int) envs)"
  using enumeration_failures [of env rc out err py_int] monitor_cycle_failed [of py_int env st]
    monitor_cycles_previous [of py_int envs st']
    monitor_cycles_previous
      [of py_int envs "\<lparr>previous_serials = {}, db = d, emitted = []\<rparr>"]
  by (simp add: yubikey_monitor_task_def)

text \<open>
  Witness for claim C5: with \<open>ykman\<close> missing the state is kept, and after a pass
  that finds the device 12345678 and a pass with \<open>ykman\<close> missing the previous set is
  still that device, not the empty set.
\<close>

theorem failed_enumeration_keeps_previous_set_witness:
  "list_serials env_no_ykman = FileNotFoundError \<and> poll ascii_int env_no_ykman = None \<and>
   monitor_cycle ascii_int env_no_ykman (fresh\<lparr>previous_serials := {12345678}\<rparr>) =
     fresh\<lparr>previous_serials := {12345678}\<rparr> \<and>
   previous_serials (monitor_cycles ascii_int [env_one, env_no_ykman] fresh) = {12345678}"
  using failed_enumeration_keeps_previous_set
    [of env_no_ykman 0 "[]" "[]" ascii_int "fresh\<lparr>previous_serials := {12345678}\<rparr>"
      "[env_one, env_no_ykman]" fresh empty_db]
    poll_env_one poll_env_no_ykman [of ascii_int]
  by (simp add: env_no_ykman_def)

section \<open>A device that does not answer is not saved\<close>

lemma read_serials_env_timeout: "read_serials ascii_int env_timeout = Inr [12345678]"
  by (simp add: read_serials_def env_one_def env_timeout_def strip_def isspace_def py_def
      split_def ascii_int_def)

text \<open>
  Claim C1 fails on the code. In the first pass of the task the device 12345678 is
  enumerated and \<open>ykman info\<close> times out: the all-unknown dictionary is broadcast, and
  the database is as empty as before, with no row for that serial in either table. The
  handler of \<open>yubikey_monitor_task\<close> does not call \<open>save_yubikey_to_db\<close>, which the
  handler of \<open>list_yubikeys\<close> does.
\<close>

theorem failed_fetch_is_not_saved:
  "poll ascii_int env_timeout = Some {12345678} \<and>
   run_ykman_command (device_info env_timeout 12345678) =
     Inl (Exception (py ''ykman command timed out'')) \<and>
   emitted (monitor_cycle ascii_int env_timeout fresh) = [[unknown_info 12345678]] \<and>
   db (monitor_cycle ascii_int env_timeout fresh) = empty_db"
proof -
  have f: "run_ykman_command (device_info env_timeout 12345678) =
     Inl (Exception (py ''ykman command timed out''))"
    by (simp add: env_timeout_def)
  have "monitor_cycle ascii_int env_timeout fresh =
    fresh\<lparr>previous_serials := {12345678}, db := empty_db,
          emitted := [[unknown_info 12345678]]\<rparr>"
    by (simp add: monitor_cycle_def read_serials_env_timeout monitor_serial_failed [OF f]
        fresh_def)
  then show ?thesis using poll_env_timeout f by simp
qed

section \<open>save_yubikey_to_db is an upsert\<close>

lemma find_as_filter:
  "find P xs = (case filter P xs of [] \<Rightarrow> None | x # r \<Rightarrow> Some x)"
  by (induction xs) auto

lemma filter_update_first:
  "(\<And>x. P x \<Longrightarrow> P (f x)) \<Longrightarrow>
   filter P (update_first P f xs) = (case filter P xs of [] \<Rightarrow> [] | x # r \<Rightarrow> f x # r)"
  by (induction xs) auto

lemma filter_update_first_other:
  "(\<And>x. P x \<Longrightarrow> \<not> Q x \<and> \<not> Q (f x)) \<Longrightarrow> filter Q (update_first P f xs) = filter Q xs"
  by (induction xs) auto

lemma length_update_first: "length (update_first P f xs) = length xs"
  by (induction xs) auto

lemma save_new:
  assumes "rows_of (serial info) d = []"
  shows "save_yubikey_to_db False t d info raw =
    (Inr \<lparr>yk_serial = serial info, yk_version = version info,
           yk_form_factor = form_factor info, yk_device_type = device_type info,
           yk_is_fips = is_fips info, yk_is_sky = is_sky info,
           yk_first_seen = t, yk_last_seen = t, yk_raw_info = raw\<rparr>,
     d\<lparr>tbl_yubikeys := tbl_yubikeys d @
          [\<lparr>yk_serial = serial info, yk_version = version info,
            yk_form_factor = form_factor info, yk_device_type = device_type info,
            yk_is_fips = is_fips info, yk_is_sky = is_sky info,
            yk_first_seen = t, yk_last_seen = t, yk_raw_info = raw\<rparr>],
        tbl_detections := tbl_detections d @
          [\<lparr>det_serial = serial info, det_detected_at = t, det_info_snapshot = info\<rparr>]\<rparr>)"
  using assms by (simp add: save_yubikey_to_db_def rows_of_def find_as_filter Let_def)

lemma save_existing:
  assumes "rows_of (serial info) d = old # rest"
  shows "save_yubikey_to_db False t d info raw =
    (Inr (old\<lparr>yk_version := version info, yk_form_factor := form_factor info,
              yk_device_type := device_type info, yk_is_fips := is_fips info,
              yk_is_sky := is_sky info, yk_last_seen := t, yk_raw_info := raw\<rparr>),
     d\<lparr>tbl_yubikeys := update_first (\<lambda>r. yk_serial r = serial info)
          (\<lambda>_. old\<lparr>yk_version := version info, yk_form_factor := form_factor info,
              yk_device_type := device_type info, yk_is_fips := is_fips info,
              yk_is_sky := is_sky info, yk_last_seen := t, yk_raw_info := raw\<rparr>)
          (tbl_yubikeys d),
        tbl_detections := tbl_detections d @
          [\<lparr>det_serial = serial info, det_detected_at = t, det_info_snapshot = info\<rparr>]\<rparr>)"
  using assms by (simp add: save_yubikey_to_db_def rows_of_def find_as_filter Let_def)

lemma old_serial: "rows_of s d = old # rest \<Longrightarrow> yk_serial old = s"
  unfolding rows_of_def by (metis (mono_tags, lifting) filter_eq_ConsD)

lemma save_once:
  assumes "length (rows_of (serial info) d) \<le> 1"
    and "save_yubikey_to_db False t d info raw = (r, d')"
  shows "\<exists>row. rows_of (serial info) d' = [row] \<and> r = Inr row \<and>
    yk_serial row = serial info \<and> yk_version row = version info \<and>
    yk_form_factor row = form_factor info \<and> yk_device_type row = device_type info \<and>
    yk_is_fips row = is_fips info \<and> yk_is_sky row = is_sky info \<and>
    yk_last_seen row = t \<and> yk_raw_info row = raw \<and>
    yk_first_seen row =
      (case rows_of (serial info) d of [] \<Rightarrow> t | old # rest \<Rightarrow> yk_first_seen old) \<and>
    tbl_detections d' = tbl_detections d @
      [\<lparr>det_serial = serial info, det_detected_at = t, det_info_snapshot = info\<rparr>]"
proof (cases "rows_of (serial info) d")
  case Nil
  show ?thesis
    using assms(2) Nil unfolding save_new [OF Nil]
    by (auto simp: rows_of_def)
next
  case (Cons old rest)
  then have rest: "rest = []" using assms(1) by simp
  have s: "yk_serial old = serial info" using Cons by (rule old_serial)
  have f: "filter (\<lambda>r. yk_serial r = serial info) (tbl_yubikeys d) = [old]"
    using Cons rest by (simp add: rows_of_def)
  show ?thesis
    using assms(2) Cons s unfolding save_existing [OF Cons]
    by (auto simp: rows_of_def filter_update_first f)
qed

lemma save_other_rows:
  assumes "save_yubikey_to_db fault t d info raw = (r, d')" and "s \<noteq> serial info"
  shows "rows_of s d' = rows_of s d \<and> events_of s d' = events_of s d"
proof (cases fault)
  case True
  then show ?thesis using assms by (simp add: save_yubikey_to_db_def)
next
  case False
  then have a: "save_yubikey_to_db False t d info raw = (r, d')" using assms(1) by simp
  show ?thesis
  proof (cases "rows_of (serial info) d")
    case Nil
    show ?thesis
      using a assms(2) unfolding save_new [OF Nil]
      by (auto simp: rows_of_def events_of_def)
  next
    case (Cons old rest)
    have s: "yk_serial old = serial info" using Cons by (rule old_serial)
    show ?thesis
      using a assms(2) s unfolding save_existing [OF Cons]
      by (auto simp: rows_of_def events_of_def intro!: filter_update_first_other)
  qed
qed

lemma save_keeps_serials_unique:
  assumes "\<forall>s. length (rows_of s d) \<le> 1"
    and "save_yubikey_to_db fault t d info raw = (r, d')"
  shows "\<forall>s. length (rows_of s d') \<le> 1"
proof
  fix s
  show "length (rows_of s d') \<le> 1"
  proof (cases "s = serial info")
    case False
    then show ?thesis using save_other_rows [OF assms(2)] assms(1) by simp
  next
    case True
    show ?thesis
    proof (cases fault)
      case True
      then have "d' = d" using assms(2) by (simp add: save_yubikey_to_db_def)
      then show ?thesis using assms(1) by simp
    next
      case False
      then have "save_yubikey_to_db False t d info raw = (r, d')" using assms(2) by simp
      from save_once [OF _ this] assms(1) \<open>s = serial info\<close> show ?thesis by auto
    qed
  qed
qed

text \<open>
  Claim C7. Two saves that do not raise, for the same serial, on tables with at most
  one row for it (the column is unique): afterwards the \<open>yubikeys\<close> table has exactly
  one row for the serial, the one returned, with the fields, the raw text and
  \<open>last_seen\<close> of the second save; its \<open>first_seen\<close> is that of the row that was there
  before, or the time of the first save when there was none; and the detections are
  those before followed by one row per save, each with the dictionary saved.
\<close>

theorem save_twice_is_upsert:
  assumes "serial info1 = s" and "serial info2 = s" and "length (rows_of s d) \<le> 1"
    and "save_yubikey_to_db False t1 d info1 raw1 = (r1, d1)"
    and "save_yubikey_to_db False t2 d1 info2 raw2 = (r2, d2)"
  shows "\<exists>row. rows_of s d2 = [row] \<and> r2 = Inr row \<and> yk_serial row = s \<and>
    yk_version row = version info2 \<and> yk_form_factor row = form_factor info2 \<and>
    yk_device_type row = device_type info2 \<and> yk_is_fips row = is_fips info2 \<and>
    yk_is_sky row = is_sky info2 \<and> yk_raw_info row = raw2 \<and> yk_last_seen row = t2 \<and>
    yk_first_seen row = (case rows_of s d of [] \<Rightarrow> t1 | old # rest \<Rightarrow> yk_first_seen old) \<and>
    tbl_detections d2 = tbl_detections d @
      [\<lparr>det_serial = s, det_detected_at = t1, det_info_snapshot = info1\<rparr>,
       \<lparr>det_serial = s, det_detected_at = t2, det_info_snapshot = info2\<rparr>]"
proof -
  from save_once [of info1 d t1 raw1 r1 d1] assms(1,3,4)
  obtain row1 where r1: "rows_of s d1 = [row1]"
    and f1: "yk_first_seen row1 =
      (case rows_of s d of [] \<Rightarrow> t1 | old # rest \<Rightarrow> yk_first_seen old)"
    and e1: "tbl_detections d1 = tbl_detections d @
      [\<lparr>det_serial = s, det_detected_at = t1, det_info_snapshot = info1\<rparr>]"
    by auto
  from save_once [of info2 d1 t2 raw2 r2 d2] assms(2,5) r1
  obtain row where "rows_of s d2 = [row]" "r2 = Inr row" "yk_serial row = s"
    "yk_version row = version info2" "yk_form_factor row = form_factor info2"
    "yk_device_type row = device_type info2" "yk_is_fips row = is_fips info2"
    "yk_is_sky row = is_sky info2" "yk_raw_info row = raw2" "yk_last_seen row = t2"
    "yk_first_seen row = yk_first_seen row1"
    "tbl_detections d2 = tbl_detections d1 @
      [\<lparr>det_serial = s, det_detected_at = t2, det_info_snapshot = info2\<rparr>]"
    by auto
  then show ?thesis using f1 e1 by auto
qed

text \<open>
  Witness for claim C7: the device 12345678 saved with firmware 5.4.3 at time 1 and
  with firmware 5.7.1 at time 2, into an empty database.
\<close>

theorem save_twice_is_upsert_witness:
  "serial (firmware_info (py ''5.4.3'')) = 12345678 \<and>
   serial (firmware_info (py ''5.7.1'')) = 12345678 \<and>
   length (rows_of 12345678 empty_db) \<le> 1 \<and>
   (\<exists>row. rows_of 12345678
       (snd (save_yubikey_to_db False 2
          (snd (save_yubikey_to_db False 1 empty_db (firmware_info (py ''5.4.3'')) []))
          (firmware_info (py ''5.7.1'')) [])) = [row] \<and>
      yk_version row = py ''5.7.1'' \<and> yk_first_seen row = 1 \<and> yk_last_seen row = 2) \<and>
   length (tbl_detections
       (snd (save_yubikey_to_db False 2
          (snd (save_yubikey_to_db False 1 empty_db (firmware_info (py ''5.4.3'')) []))
          (firmware_info (py ''5.7.1'')) []))) = 2"
proof -
  let ?i1 = "firmware_info (py ''5.4.3'')" and ?i2 = "firmware_info (py ''5.7.1'')"
  let ?s1 = "save_yubikey_to_db False 1 empty_db ?i1 []"
  let ?s2 = "save_yubikey_to_db False 2 (snd ?s1) ?i2 []"
  have a: "serial ?i1 = 12345678" and b: "serial ?i2 = 12345678"
    by (simp_all add: firmware_info_def)
  have c: "length (rows_of 12345678 empty_db) \<le> 1"
    by (simp add: rows_of_def empty_db_def)
  have e: "rows_of 12345678 empty_db = []" "tbl_detections empty_db = []"
    by (simp_all add: rows_of_def empty_db_def)
  have v: "version ?i2 = py ''5.7.1''" by (simp add: firmware_info_def)
  have p1: "?s1 = (fst ?s1, snd ?s1)" and p2: "?s2 = (fst ?s2, snd ?s2)" by simp_all
  from save_twice_is_upsert [OF a b c p1 p2] show ?thesis
    using a b c by (auto simp: e v)
qed

section \<open>Connecting and disconnecting subscribers\<close>

lemma no_filter_no_member: "length (filter P xs) = 0 \<Longrightarrow> j < length xs \<Longrightarrow> \<not> P (xs ! j)"
  by (auto simp: filter_empty_conv)

lemma others_outside:
  "length (filter P xs) = 1 \<Longrightarrow> i < length xs \<Longrightarrow> P (xs ! i) \<Longrightarrow> j < length xs \<Longrightarrow>
   j \<noteq> i \<Longrightarrow> \<not> P (xs ! j)"
proof (induction xs arbitrary: i j)
  case Nil
  then show ?case by simp
next
  case (Cons x xs)
  show ?case
  proof (cases "P x")
    case True
    then have none: "length (filter P xs) = 0" using Cons.prems(1) by simp
    have i0: "i = 0"
    proof (cases i)
      case (Suc k)
      then have "\<not> P (xs ! k)" using none Cons.prems(2) by (auto simp: filter_empty_conv)
      then show ?thesis using Cons.prems(3) Suc by simp
    qed simp
    then obtain k where "j = Suc k" using Cons.prems(5) by (cases j) auto
    then show ?thesis using none Cons.prems(4) by (auto simp: filter_empty_conv)
  next
    case False
    then have one: "length (filter P xs) = 1" using Cons.prems(1) by simp
    show ?thesis
    proof (cases j)
      case 0
      then show ?thesis using False by simp
    next
      case j: (Suc k)
      obtain l where i: "i = Suc l" using Cons.prems(3) False by (cases i) auto
      show ?thesis
        using Cons.IH [OF one, of l k] Cons.prems i j by simp
    qed
  qed
qed

lemma count_only_one:
  "i < length xs \<Longrightarrow> (\<forall>j<length xs. j \<noteq> i \<longrightarrow> \<not> P (xs ! j)) \<Longrightarrow>
   length (filter P (xs[i := y])) = (if P y then 1 else 0)"
proof -
  assume i: "i < length xs" and out: "\<forall>j<length xs. j \<noteq> i \<longrightarrow> \<not> P (xs ! j)"
  have "filter P (take i xs) = []"
    using i out by (auto simp: filter_empty_conv in_set_conv_nth)
  moreover have "filter P (drop (Suc i) xs) = []"
    using i out by (auto simp: filter_empty_conv in_set_conv_nth)
  moreover have "xs[i := y] = take i xs @ y # drop (Suc i) xs"
    using i by (rule upd_conv_take_nth_drop)
  ultimately show ?thesis by simp
qed

lemma outside_preserved:
  "\<not> in_section hp \<Longrightarrow> at_point g hp \<Longrightarrow> (thread g \<noteq> None \<longrightarrow> thread g' \<noteq> None) \<Longrightarrow>
   at_point g' hp"
  by (cases "(g, hp)" rule: at_point.cases) (auto simp: in_section_def)

lemma inv_after:
  assumes i: "i < length hs"
    and out: "\<forall>j<length hs. j \<noteq> i \<longrightarrow> \<not> in_section (hs ! j)"
    and pts: "list_all (at_point g) hs"
    and mono: "thread g \<noteq> None \<longrightarrow> thread g' \<noteq> None"
    and new: "at_point g' hp'"
    and lock: "thread_lock g' = in_section hp'"
    and free: "thread_lock g' \<or> agree g'"
  shows "lock_inv (hs[i := hp'], g')"
proof -
  have "length (filter in_section (hs[i := hp'])) = (if thread_lock g' then 1 else 0)"
    using count_only_one [OF i out, of hp'] lock by simp
  moreover have "list_all (at_point g') (hs[i := hp'])"
    unfolding list_all_length
  proof (intro allI impI)
    fix j
    assume j: "j < length (hs[i := hp'])"
    show "at_point g' (hs[i := hp'] ! j)"
    proof (cases "j = i")
      case True
      then show ?thesis using i new by simp
    next
      case False
      have a: "at_point g (hs ! j)" using pts j by (simp add: list_all_length)
      have b: "\<not> in_section (hs ! j)" using out j False by simp
      have "at_point g' (hs ! j)" using b a mono by (rule outside_preserved)
      then show ?thesis using False by simp
    qed
  qed
  ultimately show ?thesis using free by (simp add: lock_inv_def)
qed

lemma step_inv:
  assumes "lock_inv sys"
  shows "lock_inv (step i sys)"
proof -
  obtain hs g where sys: "sys = (hs, g)" by (cases sys)
  show ?thesis
  proof (cases "i < length hs")
    case False
    then show ?thesis using assms by (simp add: step_def sys)
  next
    case i: True
    obtain h p where hp: "hs ! i = (h, p)" by (cases "hs ! i")
    obtain p' g' where st: "handler_step h p g = (p', g')" by (cases "handler_step h p g")
    have stp: "step i sys = (hs[i := (h, p')], g')"
      using i hp st by (simp add: step_def sys)
    from assms have cnt: "length (filter in_section hs) = (if thread_lock g then 1 else 0)"
      and pts: "list_all (at_point g) hs" and free: "thread_lock g \<or> agree g"
      by (simp_all add: lock_inv_def sys)
    have cur: "at_point g (h, p)" using pts i hp by (auto simp: list_all_length)
    show ?thesis
    proof (cases "p = Finished \<or> (p = Waiting \<and> thread_lock g)")
      case True
      then have "p' = p \<and> g' = g" using st by auto
      then have "step i sys = sys" using stp hp sys by (metis list_update_id)
      then show ?thesis using assms by simp
    next
      case moves: False
      have held: "thread_lock g" if "in_section (h, p)"
      proof -
        have "hs ! i \<in> set hs" using i by (rule nth_mem)
        then have "hs ! i \<in> set (filter in_section hs)" using that hp by simp
        then have "filter in_section hs \<noteq> []" by (metis empty_iff empty_set)
        then have "length (filter in_section hs) \<noteq> 0" by simp
        then show ?thesis using cnt by (simp split: if_splits)
      qed
      have out: "\<forall>j<length hs. j \<noteq> i \<longrightarrow> \<not> in_section (hs ! j)"
      proof (cases "in_section (h, p)")
        case True
        then have "length (filter in_section hs) = 1" using held cnt by simp
        then show ?thesis using others_outside [of in_section hs i] i hp True by auto
      next
        case False
        then have "p = Waiting" using moves by (auto simp: in_section_def)
        then have "length (filter in_section hs) = 0" using moves cnt by simp
        then show ?thesis using no_filter_no_member [of in_section hs] by blast
      qed
      have "lock_inv (hs[i := (h, p')], g')"
      proof (rule inv_after [OF i out pts])
        show "thread g \<noteq> None \<longrightarrow> thread g' \<noteq> None"
          using st by (cases h; cases p) (auto split: if_splits)
        show "at_point g' (h, p')"
          using st cur free moves
          by (cases h; cases p) (auto simp: agree_def split: if_splits)
        show "thread_lock g' = in_section (h, p')"
          using st moves held
          by (cases h; cases p) (auto simp: in_section_def split: if_splits)
        show "thread_lock g' \<or> agree g'"
          using st cur free moves held
          by (cases h; cases p) (auto simp: agree_def in_section_def split: if_splits)
      qed
      then show ?thesis using stp by simp
    qed
  qed
qed

lemma run_inv: "lock_inv sys \<Longrightarrow> lock_inv (run sched sys)"
  by (induction sched arbitrary: sys) (simp_all add: step_inv)

lemma initial_inv: "lock_inv (initial hs)"
  by (simp add: lock_inv_def initial_def agree_def in_section_def list_all_iff)

lemma inv_started:
  assumes "lock_inv (hs, g)"
  shows "started g \<le> 1 \<and> ((OnConnect, Finished) \<in> set hs \<longrightarrow> started g = 1)"
proof -
  from assms have cnt: "length (filter in_section hs) = (if thread_lock g then 1 else 0)"
    and pts: "list_all (at_point g) hs" and free: "thread_lock g \<or> agree g"
    by (simp_all add: lock_inv_def)
  have all: "at_point g hp" if "hp \<in> set hs" for hp
    using pts that by (simp add: list_all_iff)
  have known: "agree g \<or> (thread g = None \<and> started g \<le> 1) \<or> (thread g \<noteq> None \<and> started g = 1)"
  proof (cases "thread_lock g")
    case False
    then show ?thesis using free by simp
  next
    case True
    then have "filter in_section hs \<noteq> []" using cnt by auto
    then obtain hp where m: "hp \<in> set hs" and s: "in_section hp"
      by (auto simp: filter_empty_conv)
    from all [OF m] s show ?thesis
      by (cases "(g, hp)" rule: at_point.cases) (auto simp: in_section_def)
  qed
  then have le: "started g \<le> 1" and some: "thread g \<noteq> None \<longrightarrow> started g = 1"
    by (auto simp: agree_def split: if_splits)
  have "thread g \<noteq> None" if "(OnConnect, Finished) \<in> set hs"
    using all [OF that] by simp
  with le some show ?thesis by blast
qed

lemma step_kinds: "map fst (fst (step i sys)) = map fst (fst sys)"
  by (cases sys) (auto simp: step_def map_update split: prod.splits intro: list_update_same_conv [THEN iffD2])

lemma run_kinds: "map fst (fst (run sched sys)) = map fst (fst sys)"
  by (induction sched arbitrary: sys) (simp_all add: step_kinds)

lemma finished_connect:
  assumes "all_finished (run sched (initial hs))" and "OnConnect \<in> set hs"
  shows "(OnConnect, Finished) \<in> set (fst (run sched (initial hs)))"
proof -
  have "map fst (fst (run sched (initial hs))) = hs"
    by (simp add: run_kinds initial_def comp_def)
  then have "OnConnect \<in> fst ` set (fst (run sched (initial hs)))"
    using assms(2) by (metis set_map)
  then obtain p where m: "(OnConnect, p) \<in> set (fst (run sched (initial hs)))" by auto
  then have "p = Finished"
    using assms(1) by (auto simp: all_finished_def list_all_iff)
  with m show ?thesis by simp
qed

text \<open>
  Claim C6. Whatever handlers run, connects and disconnects in any number, and however
  their statements interleave: \<open>start_background_task\<close> has been called at most once
  at every moment; it has been called exactly once as soon as one connect handler has
  finished; so exactly once when all handlers have finished and one of them was a
  connect. The lock does this: a handler inside the block excludes the others.
\<close>

theorem one_loop_started:
  "started (snd (run sched (initial hs))) \<le> 1 \<and>
   ((OnConnect, Finished) \<in> set (fst (run sched (initial hs))) \<longrightarrow>
      started (snd (run sched (initial hs))) = 1) \<and>
   (all_finished (run sched (initial hs)) \<and> OnConnect \<in> set hs \<longrightarrow>
      started (snd (run sched (initial hs))) = 1)"
  using inv_started [of "fst (run sched (initial hs))" "snd (run sched (initial hs))"]
    run_inv [OF initial_inv, of sched hs] finished_connect [of sched hs]
  by simp

lemma example_schedule:
  "run [1, 0, 1, 2, 1, 0, 1, 1, 1, 0, 0, 0, 0, 2, 2, 2]
     (initial [OnConnect, OnConnect, OnDisconnect]) =
   ([(OnConnect, Finished), (OnConnect, Finished), (OnDisconnect, Finished)],
    \<lparr>thread = Some 1, connected_clients = 1, started = 1, thread_lock = False\<rparr>)"
  by (simp add: initial_def step_def)

text \<open>
  Witness for claim C6: two connects and a disconnect, the second connect taking the
  lock first while the others wait; all three finish and the task was started once.
\<close>

theorem one_loop_started_witness:
  "all_finished (run [1, 0, 1, 2, 1, 0, 1, 1, 1, 0, 0, 0, 0, 2, 2, 2]
     (initial [OnConnect, OnConnect, OnDisconnect])) \<and>
   OnConnect \<in> set [OnConnect, OnConnect, OnDisconnect] \<and>
   started (snd (run [1, 0, 1, 2, 1, 0, 1, 1, 1, 0, 0, 0, 0, 2, 2, 2]
     (initial [OnConnect, OnConnect, OnDisconnect]))) = 1"
proof -
  have "all_finished (run [1, 0, 1, 2, 1, 0, 1, 1, 1, 0, 0, 0, 0, 2, 2, 2]
     (initial [OnConnect, OnConnect, OnDisconnect]))"
    unfolding example_schedule by (simp add: all_finished_def)
  then show ?thesis
    using one_loop_started [of "[1, 0, 1, 2, 1, 0, 1, 1, 1, 0, 0, 0, 0, 2, 2, 2]"
        "[OnConnect, OnConnect, OnDisconnect]"]
    by simp
qed

text \<open>
  The handlers of the events' view are the handlers of the interleaved view, run alone.
\<close>

lemma connect_alone:
  "\<not> thread_lock g \<Longrightarrow>
   run [0, 0, 0, 0, 0, 0] ([(OnConnect, Waiting)], g) = ([(OnConnect, Finished)], handle_connect g)"
  by (cases g) (auto simp: step_def handle_connect_def Let_def)

lemma disconnect_alone:
  "\<not> thread_lock g \<Longrightarrow>
   run [0, 0, 0] ([(OnDisconnect, Waiting)], g) = ([(OnDisconnect, Finished)], handle_disconnect g)"
  by (cases g) (auto simp: step_def handle_disconnect_def)

lemma handle_connect_keeps:
  "thread g \<noteq> None \<Longrightarrow>
   thread (handle_connect g) = thread g \<and> started (handle_connect g) = started g"
  by (auto simp: handle_connect_def Let_def)

lemma handle_connect_starts: "thread (handle_connect g) \<noteq> None"
  by (simp add: handle_connect_def Let_def)

lemma app_run_started:
  "thread (fan a) \<noteq> None \<Longrightarrow>
   thread (fan (app_run py_int evs a)) = thread (fan a) \<and>
   started (fan (app_run py_int evs a)) = started (fan a) \<and>
   mon (app_run py_int evs a) = monitor_cycles py_int (passes evs) (mon a)"
proof (induction evs arbitrary: a)
  case Nil
  show ?case by simp
next
  case (Cons ev evs)
  show ?case
  proof (cases ev)
    case Connect
    then show ?thesis
      using Cons.IH [of "app_step py_int Connect a"] Cons.prems handle_connect_keeps [of "fan a"]
      by simp
  next
    case Disconnect
    then show ?thesis
      using Cons.IH [of "app_step py_int Disconnect a"] Cons.prems
      by (simp add: handle_disconnect_def)
  next
    case (Pass env)
    then show ?thesis
      using Cons.IH [of "app_step py_int (Pass env) a"] Cons.prems by auto
  qed
qed

text \<open>
  Claim C8. \<open>handle_disconnect\<close> only takes 1 from \<open>connected_clients\<close>: \<open>thread\<close> and
  the count of started tasks are as before. After the first connect \<open>thread\<close> is set,
  and through any later events, whatever the number of subscribers left, it stays as it
  is, no second task is started, and every pass of the loop among the events is made:
  the monitor's state is that of running all of them.
\<close>

theorem loop_is_never_stopped:
  "thread (handle_disconnect g) = thread g \<and> started (handle_disconnect g) = started g \<and>
   connected_clients (handle_disconnect g) = connected_clients g - 1 \<and>
   thread (fan (app_step py_int Connect a)) \<noteq> None \<and>
   thread (fan (app_run py_int evs (app_step py_int Connect a))) =
     thread (fan (app_step py_int Connect a)) \<and>
   started (fan (app_run py_int evs (app_step py_int Connect a))) =
     started (fan (app_step py_int Connect a)) \<and>
   mon (app_run py_int evs (app_step py_int Connect a)) =
     monitor_cycles py_int (passes evs) (mon a)"
  using app_run_started [of "app_step py_int Connect a" py_int evs]
    handle_connect_starts [of "fan a"]
  by (simp add: handle_disconnect_def)

text \<open>
  Witness for claim C8: a connect, then the disconnect that leaves no subscriber, then
  a pass: the task is still there and the pass found the device 12345678.
\<close>

theorem loop_is_never_stopped_witness:
  "connected_clients (fan (app_run ascii_int [Disconnect, Pass env_one]
      (app_step ascii_int Connect app0))) = 0 \<and>
   thread (fan (app_run ascii_int [Disconnect, Pass env_one]
      (app_step ascii_int Connect app0))) = Some 1 \<and>
   started (fan (app_run ascii_int [Disconnect, Pass env_one]
      (app_step ascii_int Connect app0))) = 1 \<and>
   previous_serials (mon (app_run ascii_int [Disconnect, Pass env_one]
      (app_step ascii_int Connect app0))) = {12345678}"
proof -
  let ?a = "app_run ascii_int [Disconnect, Pass env_one] (app_step ascii_int Connect app0)"
  have f: "fan (app_step ascii_int Connect app0) =
      \<lparr>thread = Some 1, connected_clients = 1, started = 1\<rparr>"
    by (simp add: app0_def handle_connect_def)
  from loop_is_never_stopped [of "fan app0" ascii_int app0 "[Disconnect, Pass env_one]"]
  have t: "thread (fan ?a) = thread (fan (app_step ascii_int Connect app0))"
    and s: "started (fan ?a) = started (fan (app_step ascii_int Connect app0))"
    and m: "mon ?a = monitor_cycles ascii_int (passes [Disconnect, Pass env_one]) (mon app0)"
    by blast+
  have c: "connected_clients (fan ?a) = 0"
    by (simp add: app0_def handle_connect_def handle_disconnect_def)
  have "previous_serials (monitor_cycles ascii_int [env_one] fresh) = {12345678}"
    using monitor_cycles_previous [of ascii_int "[env_one]" fresh] poll_env_one by simp
  then have p: "previous_serials (mon ?a) = {12345678}"
    unfolding m by (simp add: app0_def)
  show ?thesis using t s c p unfolding f by simp
qed

end
